theory Spec2Isabelle
  imports Main "HOL-Library.Multiset"
begin

section \<open>Strings and Python values\<close>

text \<open>
  A Python \<open>str\<close> is modelled as a \<^typ>\<open>string\<close>, one \<^typ>\<open>char\<close> per code point, for code
  points below 256. In that range the regular expression class \<open>\d\<close> is exactly the ten
  characters \<open>0\<close> .. \<open>9\<close>, and \<open>int\<close> reads them as decimal digits.
\<close>

definition newline :: char where
  "newline = CHR 0x0A"

definition is_digit :: "char \<Rightarrow> bool" where
  "is_digit c = (48 \<le> (of_char c :: nat) \<and> (of_char c :: nat) \<le> 57)"

definition digit_val :: "char \<Rightarrow> int" where
  "digit_val c = int (of_char c) - 48"

text \<open>\<open>int(ds)\<close> for a string of decimal digits (leading zeros are accepted).\<close>

definition int_of_digits :: "string \<Rightarrow> int" where
  "int_of_digits ds = foldl (\<lambda>a c. 10 * a + digit_val c) 0 ds"

text \<open>\<open>strip_prefix p s\<close>: the rest of \<open>s\<close> after the literal \<open>p\<close>, when \<open>s\<close> starts with it.\<close>

fun strip_prefix :: "string \<Rightarrow> string \<Rightarrow> string option" where
  "strip_prefix [] s = Some s"
| "strip_prefix (p # ps) [] = None"
| "strip_prefix (p # ps) (c # cs) = (if p = c then strip_prefix ps cs else None)"

text \<open>Python's \<open>sub in s\<close> on strings: \<open>sub\<close> occurs in \<open>s\<close> as a contiguous substring.\<close>

fun str_contains :: "string \<Rightarrow> string \<Rightarrow> bool" where
  "str_contains sub [] = (sub = [])"
| "str_contains sub (c # cs) =
     (case strip_prefix sub (c # cs) of Some r \<Rightarrow> True | None \<Rightarrow> str_contains sub cs)"

text \<open>\<open>sep.join(xs)\<close>.\<close>

fun join :: "string \<Rightarrow> string list \<Rightarrow> string" where
  "join sep [] = []"
| "join sep [x] = x"
| "join sep (x # y # ys) = x @ sep @ join sep (y # ys)"

datatype pyval = PNone | PInt int | PStr string

datatype py_error = KeyError | IndexError | ValidationError

text \<open>A \<open>dict\<close> with string keys, in insertion order.\<close>

type_synonym pydict = "(string \<times> pyval) list"

text \<open>\<open>d[k]\<close>: the value stored under \<open>k\<close>, \<open>KeyError\<close> when the key is absent.\<close>

definition dict_get :: "pydict \<Rightarrow> string \<Rightarrow> py_error + pyval" where
  "dict_get d k = (case map_of d k of None \<Rightarrow> Inl KeyError | Some v \<Rightarrow> Inr v)"

text \<open>\<open>d[k] = v\<close>: replaces the value of an existing key in place, appends a new key.\<close>

fun dict_set :: "pydict \<Rightarrow> string \<Rightarrow> pyval \<Rightarrow> pydict" where
  "dict_set [] k v = [(k, v)]"
| "dict_set ((k', v') # d) k v = (if k' = k then (k, v) # d else (k', v') # dict_set d k v)"

section \<open>Page numbers of image files\<close>

text \<open>
  \<^verbatim>\<open>
  def get_page_number(file_name):
      match = re.search(r"-page_(\d+)\.jpg$", str(file_name))
      if match:
          return int(match.group(1))
      return 0
  \<close>
  \<open>match_here t\<close> is the match of the pattern anchored at the head of \<open>t\<close>, giving group 1:
  the literal \<open>-page_\<close>, the greedy run of digits (giving digits back cannot help, the
  next pattern character \<open>.\<close> is no digit), the literal \<open>.jpg\<close>, and \<open>$\<close>, which in
  Python holds at the end of the string and also just before a newline that ends the string.
  \<open>re_search\<close> tries the start positions from left to right and keeps the first match.
\<close>

definition match_here :: "string \<Rightarrow> string option" where
  "match_here t =
     (case strip_prefix ''-page_'' t of
        None \<Rightarrow> None
      | Some r \<Rightarrow>
          (let ds = takeWhile is_digit r; rest = dropWhile is_digit r
           in if ds \<noteq> [] \<and> (rest = ''.jpg'' \<or> rest = ''.jpg'' @ [newline])
              then Some ds else None))"

fun re_search :: "string \<Rightarrow> string option" where
  "re_search [] = match_here []"
| "re_search (c # cs) =
     (case match_here (c # cs) of Some ds \<Rightarrow> Some ds | None \<Rightarrow> re_search cs)"

definition get_page_number :: "string \<Rightarrow> int" where
  "get_page_number file_name =
     (case re_search file_name of Some ds \<Rightarrow> int_of_digits ds | None \<Rightarrow> 0)"

text \<open>
  The specification's reading of the pattern: \<open>page_suffix s\<close> is the digit string of a
  trailing \<open>-page_<digits>.jpg\<close> when \<open>s\<close> ends with one (read from the end of \<open>s\<close>).
\<close>

definition page_suffix :: "string \<Rightarrow> string option" where
  "page_suffix s =
     (case strip_prefix (rev ''.jpg'') (rev s) of
        None \<Rightarrow> None
      | Some r \<Rightarrow>
          (let ds = takeWhile is_digit r; rest = dropWhile is_digit r
           in if ds \<noteq> [] \<and> strip_prefix (rev ''-page_'') rest \<noteq> None
              then Some (rev ds) else None))"

text \<open>\<open>chomp s\<close> is \<open>s\<close> without one final newline, if it has one.\<close>

definition chomp :: "string \<Rightarrow> string" where
  "chomp s = (if s \<noteq> [] \<and> last s = newline then butlast s else s)"

section \<open>Image files of a directory\<close>

text \<open>
  The image directory is given by its listing: one entry per \<open>Path\<close> that
  \<open>Path(image_dir).iterdir()\<close> yields, in the order it yields them, with the string
  \<open>str(f)\<close> of the entry (the path of the directory joined with the entry's name) and the
  result of \<open>f.is_file()\<close>.
\<close>

record dir_entry =
  path_str :: string
  is_file :: bool

text \<open>
  \<^verbatim>\<open>
  def _get_sorted_image_files(image_dir):
      raw_files = [
          f for f in list(Path(image_dir).iterdir()) if f.is_file() and "-page" in str(f)
      ]
      sorted_files = sorted(raw_files, key=get_page_number)
      return sorted_files
  \<close>
  \<open>sorted\<close> is a stable sort, as \<^const>\<open>sort_key\<close> is.
\<close>

definition get_sorted_image_files :: "dir_entry list \<Rightarrow> dir_entry list" where
  "get_sorted_image_files image_dir =
     (let raw_files = filter (\<lambda>f. is_file f \<and> str_contains ''-page'' (path_str f)) image_dir;
          sorted_files = sort_key (\<lambda>f. get_page_number (path_str f)) raw_files
      in sorted_files)"

text \<open>The name of a file, the last component of its path (\<open>Path.name\<close>).\<close>

definition file_name :: "string \<Rightarrow> string" where
  "file_name p = rev (takeWhile (\<lambda>c. c \<noteq> CHR ''/'') (rev p))"

section \<open>Page chunks\<close>

text \<open>A \<open>TextNode\<close>, with the two attributes the notebook sets and reads.\<close>

record text_node =
  "text" :: string
  metadata :: pydict

text \<open>\<open>xs[i]\<close> for an index \<open>i\<close> that is not negative.\<close>

definition list_get :: "'a list \<Rightarrow> nat \<Rightarrow> py_error + 'a" where
  "list_get xs i = (if i < length xs then Inr (xs ! i) else Inl IndexError)"

text \<open>\<open>[d["md"] for d in json_dicts]\<close>\<close>

fun md_texts_of :: "pydict list \<Rightarrow> py_error + pyval list" where
  "md_texts_of [] = Inr []"
| "md_texts_of (d # ds) =
     (case dict_get d ''md'' of
        Inl e \<Rightarrow> Inl e
      | Inr v \<Rightarrow> (case md_texts_of ds of Inl e \<Rightarrow> Inl e | Inr vs \<Rightarrow> Inr (v # vs)))"

text \<open>
  \<^verbatim>\<open>
  def get_text_nodes(image_dir, json_dicts):
      nodes = []
      image_files = _get_sorted_image_files(image_dir)
      md_texts = [d["md"] for d in json_dicts]
      for idx, md_text in enumerate(md_texts):
          chunk_metadata = {"page_num": idx + 1}
          chunk_metadata["image_path"] = str(image_files[idx])
          chunk_metadata["parsed_text_markdown"] = md_texts[idx]
          node = TextNode(text="", metadata=chunk_metadata)
          nodes.append(node)
      return nodes
  \<close>
  The loop is \<open>text_nodes_loop\<close>: \<open>idx\<close> and the records still to visit are its loop
  variables, \<open>nodes\<close> the list built so far.
\<close>

fun text_nodes_loop ::
  "dir_entry list \<Rightarrow> pyval list \<Rightarrow> nat \<Rightarrow> pyval list \<Rightarrow> text_node list \<Rightarrow>
     py_error + text_node list" where
  "text_nodes_loop image_files md_texts idx [] nodes = Inr nodes"
| "text_nodes_loop image_files md_texts idx (md_text # rest) nodes =
     (case list_get image_files idx of
        Inl e \<Rightarrow> Inl e
      | Inr image_file \<Rightarrow>
          (case list_get md_texts idx of
             Inl e \<Rightarrow> Inl e
           | Inr md \<Rightarrow>
               (let chunk_metadata = [(''page_num'', PInt (int idx + 1))];
                    chunk_metadata = dict_set chunk_metadata ''image_path''
                                       (PStr (path_str image_file));
                    chunk_metadata = dict_set chunk_metadata ''parsed_text_markdown'' md;
                    node = \<lparr>text = [], metadata = chunk_metadata\<rparr>
                in text_nodes_loop image_files md_texts (Suc idx) rest (nodes @ [node]))))"

definition get_text_nodes :: "dir_entry list \<Rightarrow> pydict list \<Rightarrow> py_error + text_node list" where
  "get_text_nodes image_dir json_dicts =
     (let image_files = get_sorted_image_files image_dir
      in case md_texts_of json_dicts of
           Inl e \<Rightarrow> Inl e
         | Inr md_texts \<Rightarrow> text_nodes_loop image_files md_texts 0 md_texts [])"

text \<open>
  The chunk that pairs text record \<open>i\<close> with the image file at position \<open>i\<close>.
\<close>

definition page_chunk :: "dir_entry list \<Rightarrow> pyval list \<Rightarrow> nat \<Rightarrow> text_node" where
  "page_chunk image_files md_texts i =
     \<lparr>text = [],
      metadata = [(''page_num'', PInt (int i + 1)),
                  (''image_path'', PStr (path_str (image_files ! i))),
                  (''parsed_text_markdown'', md_texts ! i)]\<rparr>"

section \<open>Content of a node\<close>

text \<open>
  \<open>get_content(metadata_mode=...)\<close> of a \<open>TextNode\<close> is code of llama_index. It is modelled
  here with the node's default templates, which are the ones every node of the notebook
  has: each metadata entry is rendered as \<open>key: value\<close> with \<open>str\<close> of the value, the
  entries are joined by newlines and stripped, and the text follows after an empty line;
  the result is stripped again. The modes \<open>all\<close>, \<open>embed\<close> and \<open>llm\<close> differ only in the keys a node
  excludes, and the nodes of the notebook exclude none. The saved output of
  \<open>print(text_nodes[0].get_content(metadata_mode="all"))\<close> shows this rendering.
\<close>

text \<open>The characters that \<open>str.strip()\<close> removes, among the code points below 256.\<close>

definition is_space :: "char \<Rightarrow> bool" where
  "is_space c =
     ((9 \<le> (of_char c :: nat) \<and> (of_char c :: nat) \<le> 13) \<or>
      (28 \<le> (of_char c :: nat) \<and> (of_char c :: nat) \<le> 32) \<or>
      (of_char c :: nat) = 133 \<or> (of_char c :: nat) = 160)"

definition strip :: "string \<Rightarrow> string" where
  "strip s = dropWhile is_space (rev (dropWhile is_space (rev s)))"

text \<open>\<open>str\<close> of an integer, of \<open>None\<close> and of a string.\<close>

fun digits_of_nat :: "nat \<Rightarrow> string" where
  "digits_of_nat n =
     (if n < 10 then [''0123456789'' ! n]
      else digits_of_nat (n div 10) @ [''0123456789'' ! (n mod 10)])"

definition str_of_int :: "int \<Rightarrow> string" where
  "str_of_int i = (if i < 0 then CHR ''-'' # digits_of_nat (nat (- i)) else digits_of_nat (nat i))"

fun str_of_pyval :: "pyval \<Rightarrow> string" where
  "str_of_pyval PNone = ''None''"
| "str_of_pyval (PInt i) = str_of_int i"
| "str_of_pyval (PStr s) = s"

datatype metadata_mode = Mode_ALL | Mode_EMBED | Mode_LLM | Mode_NONE

definition get_metadata_str :: "metadata_mode \<Rightarrow> text_node \<Rightarrow> string" where
  "get_metadata_str mode n =
     (if mode = Mode_NONE then []
      else join [newline]
             (map (\<lambda>(key, value). key @ '': '' @ str_of_pyval value) (metadata n)))"

definition get_content_mode :: "metadata_mode \<Rightarrow> text_node \<Rightarrow> string" where
  "get_content_mode mode n =
     (let metadata_str = strip (get_metadata_str mode n)
      in if mode = Mode_NONE \<or> metadata_str = [] then text n
         else strip (metadata_str @ [newline, newline] @ text n))"

section \<open>Context annotation\<close>

text \<open>
  \<open>create_contextual_nodes\<close> copies each node and then writes to the copy, so what it does to
  its input depends on which objects are shared. Nodes are therefore objects in a store:
  a \<open>TextNode\<close> object holds its text and the address of its metadata \<open>dict\<close> object, and a
  node is passed around as the address of its object. Addresses are positions in the store;
  a new object is put at the end.
\<close>

record node_obj =
  obj_text :: string
  metadata_ref :: nat

record store =
  node_objs :: "node_obj list"
  dict_objs :: "pydict list"

text \<open>The node at an address, as a value: its text and the content of its metadata.\<close>

definition node_at :: "store \<Rightarrow> nat \<Rightarrow> text_node" where
  "node_at h a =
     \<lparr>text = obj_text (node_objs h ! a),
      metadata = dict_objs h ! metadata_ref (node_objs h ! a)\<rparr>"

text \<open>Every node object of the store refers to a metadata object of the store.\<close>

definition wf_store :: "store \<Rightarrow> bool" where
  "wf_store h = (\<forall>obj\<in>set (node_objs h). metadata_ref obj < length (dict_objs h))"

text \<open>
  \<open>deepcopy(node)\<close>: a new metadata object with the same content (its values are integers
  and strings, which are immutable), and a new node object that refers to it.
\<close>

definition deepcopy :: "store \<Rightarrow> nat \<Rightarrow> nat \<times> store" where
  "deepcopy h a =
     (let obj = node_objs h ! a;
          new_dict = length (dict_objs h);
          new_node = length (node_objs h)
      in (new_node,
          h\<lparr>dict_objs := dict_objs h @ [dict_objs h ! metadata_ref obj],
            node_objs := node_objs h @ [\<lparr>obj_text = obj_text obj, metadata_ref = new_dict\<rparr>]\<rparr>))"

text \<open>\<open>node.metadata[k] = v\<close>: a write to the metadata object the node refers to.\<close>

definition metadata_set :: "store \<Rightarrow> nat \<Rightarrow> string \<Rightarrow> pyval \<Rightarrow> store" where
  "metadata_set h a k v =
     (let d = metadata_ref (node_objs h ! a)
      in h\<lparr>dict_objs := (dict_objs h)[d := dict_set (dict_objs h ! d) k v]\<rparr>)"

text \<open>A chat request: the messages and the extra headers given to \<open>llm.chat\<close>.\<close>

record content_part =
  part_text :: string
  part_type :: string
  cache_control :: "(string \<times> string) list option"

datatype content = Text string | Parts "content_part list"

record chat_message =
  role :: string
  content :: content

record chat_request =
  messages :: "chat_message list"
  extra_headers :: "(string \<times> string) list"

text \<open>The two templates, \<open>whole_doc_text.format\<close> and \<open>chunk_text.format\<close>.\<close>

definition whole_doc_text :: "string \<Rightarrow> string" where
  "whole_doc_text WHOLE_DOCUMENT =
     ''Here is the entire document.'' @ [newline] @ ''<document>'' @ [newline] @
     WHOLE_DOCUMENT @ [newline] @ ''</document>''"

definition chunk_text :: "string \<Rightarrow> string" where
  "chunk_text CHUNK_CONTENT =
     ''Here is the chunk we want to situate within the whole document'' @ [newline] @
     ''<chunk>'' @ [newline] @ CHUNK_CONTENT @ [newline] @ ''</chunk>'' @ [newline] @
     ''Please give a short succinct context to situate this chunk within the overall document for '' @
     ''the purposes of improving search retrieval of the chunk. '' @
     ''Answer only with the succinct context and nothing else.''"

text \<open>The request of one iteration, for the document text and the content of the chunk.\<close>

definition chunk_request :: "string \<Rightarrow> string \<Rightarrow> chat_request" where
  "chunk_request doc_text chunk_content =
     \<lparr>messages =
        [\<lparr>role = ''system'', content = Text ''You are a helpful AI Assistant.''\<rparr>,
         \<lparr>role = ''user'',
          content = Parts
            [\<lparr>part_text = whole_doc_text doc_text, part_type = ''text'',
              cache_control = Some [(''type'', ''ephemeral'')]\<rparr>,
             \<lparr>part_text = chunk_text chunk_content, part_type = ''text'',
              cache_control = None\<rparr>]\<rparr>],
      extra_headers = [(''anthropic-beta'', ''prompt-caching-2024-07-31'')]\<rparr>"

text \<open>
  \<^verbatim>\<open>
  def create_contextual_nodes(nodes, llm):
      nodes_modified = []
      doc_text = "\n".join([n.get_content(metadata_mode="all") for n in nodes])
      for idx, node in enumerate(nodes):
          new_node = deepcopy(node)
          messages = [ ... ]
          new_response = llm.chat(
              messages, extra_headers={"anthropic-beta": "prompt-caching-2024-07-31"}
          )
          new_node.metadata["context"] = str(new_response)
          nodes_modified.append(new_node)
      return nodes_modified
  \<close>
  The services of the libraries are parameters: \<open>chat\<close> is \<open>llm.chat\<close>, a function of the
  state of the service and the request that gives the response and the next state;
  \<open>response_str\<close> is \<open>str\<close> on a response; \<open>get_content\<close> is
  \<open>get_content(metadata_mode="all")\<close> on a node. The state of the loop holds the store, the
  state of the service, the list \<open>nodes_modified\<close>, and the requests issued so far, each with
  its response.
\<close>

record ('s, 'r) annot_state =
  cur_store :: store
  llm_state :: 's
  nodes_modified :: "nat list"
  exchanges :: "(chat_request \<times> 'r) list"

definition annotate_node ::
  "('s \<Rightarrow> chat_request \<Rightarrow> 'r \<times> 's) \<Rightarrow> ('r \<Rightarrow> string) \<Rightarrow> (text_node \<Rightarrow> string) \<Rightarrow> string \<Rightarrow>
     ('s, 'r) annot_state \<Rightarrow> nat \<Rightarrow> ('s, 'r) annot_state" where
  "annotate_node chat response_str get_content doc_text st node =
     (let (new_node, h1) = deepcopy (cur_store st) node;
          request = chunk_request doc_text (get_content (node_at h1 node));
          (new_response, s1) = chat (llm_state st) request;
          h2 = metadata_set h1 new_node ''context'' (PStr (response_str new_response))
      in \<lparr>cur_store = h2, llm_state = s1,
          nodes_modified = nodes_modified st @ [new_node],
          exchanges = exchanges st @ [(request, new_response)]\<rparr>)"

fun annotate_loop ::
  "('s \<Rightarrow> chat_request \<Rightarrow> 'r \<times> 's) \<Rightarrow> ('r \<Rightarrow> string) \<Rightarrow> (text_node \<Rightarrow> string) \<Rightarrow> string \<Rightarrow>
     ('s, 'r) annot_state \<Rightarrow> nat list \<Rightarrow> ('s, 'r) annot_state" where
  "annotate_loop chat response_str get_content doc_text st [] = st"
| "annotate_loop chat response_str get_content doc_text st (node # rest) =
     annotate_loop chat response_str get_content doc_text
       (annotate_node chat response_str get_content doc_text st node) rest"

definition create_contextual_nodes ::
  "('s \<Rightarrow> chat_request \<Rightarrow> 'r \<times> 's) \<Rightarrow> ('r \<Rightarrow> string) \<Rightarrow> (text_node \<Rightarrow> string) \<Rightarrow>
     store \<Rightarrow> 's \<Rightarrow> nat list \<Rightarrow> ('s, 'r) annot_state" where
  "create_contextual_nodes chat response_str get_content h s nodes =
     (let doc_text = join [newline] (map (\<lambda>n. get_content (node_at h n)) nodes)
      in annotate_loop chat response_str get_content doc_text
           \<lparr>cur_store = h, llm_state = s, nodes_modified = [], exchanges = []\<rparr> nodes)"

text \<open>
  A \<open>ChatResponse\<close>, by the role and the text of its message. \<open>str\<close> of a response is the
  role, a colon, a space and the text: llama_index renders a chat message so, and the saved
  outputs of the notebook show it in the metadata of the retrieved nodes
  (\<open>context: assistant: This chunk is part of ...\<close>).
\<close>

record chat_response =
  response_role :: string
  response_text :: string

definition chat_response_str :: "chat_response \<Rightarrow> string" where
  "chat_response_str r = response_role r @ '': '' @ response_text r"

text \<open>
  Asking a service a list of requests one after the other, each in the state the one
  before left: the requests with their responses, and the state at the end.
\<close>

fun chat_log :: "('s \<Rightarrow> chat_request \<Rightarrow> 'r \<times> 's) \<Rightarrow> 's \<Rightarrow> chat_request list \<Rightarrow>
    (chat_request \<times> 'r) list" where
  "chat_log chat s [] = []"
| "chat_log chat s (req # reqs) =
     (req, fst (chat s req)) # chat_log chat (snd (chat s req)) reqs"

fun chat_final :: "('s \<Rightarrow> chat_request \<Rightarrow> 'r \<times> 's) \<Rightarrow> 's \<Rightarrow> chat_request list \<Rightarrow> 's" where
  "chat_final chat s [] = s"
| "chat_final chat s (req # reqs) = chat_final chat (snd (chat s req)) reqs"

text \<open>The value of a node with the context summary \<open>ctx\<close> stored in its metadata.\<close>

definition with_context :: "text_node \<Rightarrow> string \<Rightarrow> text_node" where
  "with_context n ctx = n\<lparr>metadata := dict_set (metadata n) ''context'' (PStr ctx)\<rparr>"

text \<open>\<open>h'\<close> has every object of \<open>h\<close>, unchanged and at its address, and maybe new ones.\<close>

definition extends :: "store \<Rightarrow> store \<Rightarrow> bool" where
  "extends h h' =
     (take (length (node_objs h)) (node_objs h') = node_objs h \<and>
      take (length (dict_objs h)) (dict_objs h') = dict_objs h)"

section \<open>Multimodal query engine\<close>

text \<open>
  A \<open>NodeWithScore\<close> holds a node and an optional score; an \<open>ImageNode\<close> is built from an
  image path; a \<open>Response\<close> holds the answer text, the source nodes and a metadata
  dictionary with the two keys \<open>text_nodes\<close> and \<open>image_nodes\<close> (the fields
  \<open>meta_text_nodes\<close> and \<open>meta_image_nodes\<close>).
\<close>

record ('n, 'sc) node_with_score =
  node :: 'n
  score :: "'sc option"

record image_node =
  image_path :: "string option"

text \<open>
  \<open>ImageNode(image_path=v)\<close>: the field is an optional string, and the constructor
  validates it: a string or \<open>None\<close> is taken, any other value raises \<open>ValidationError\<close>.
\<close>

fun ImageNode :: "pyval \<Rightarrow> py_error + image_node" where
  "ImageNode (PStr p) = Inr \<lparr>image_path = Some p\<rparr>"
| "ImageNode PNone = Inr \<lparr>image_path = None\<rparr>"
| "ImageNode (PInt i) = Inl ValidationError"

record 'sc response_metadata =
  meta_text_nodes :: "(text_node, 'sc) node_with_score list"
  meta_image_nodes :: "(image_node, 'sc) node_with_score list"

record 'sc response =
  response :: string
  source_nodes :: "(text_node, 'sc) node_with_score list"
  response_metadata :: "'sc response_metadata"

text \<open>
  The engine with its three attributes: \<open>qa_prompt\<close> is \<open>qa_prompt.format\<close> on the context
  string and the query string, \<open>retriever\<close> is \<open>retriever.retrieve\<close>, \<open>multi_modal_llm\<close> is
  \<open>multi_modal_llm.complete\<close> on the prompt and the image documents.
\<close>

record ('sc, 'l) MultimodalQueryEngine =
  qa_prompt :: "string \<Rightarrow> string \<Rightarrow> string"
  retriever :: "string \<Rightarrow> (text_node, 'sc) node_with_score list"
  multi_modal_llm :: "string \<Rightarrow> image_node list \<Rightarrow> 'l"

text \<open>
  \<open>[NodeWithScore(node=ImageNode(image_path=n.metadata["image_path"])) for n in nodes]\<close>
\<close>

fun image_nodes_of ::
  "(text_node, 'sc) node_with_score list \<Rightarrow> py_error + (image_node, 'sc) node_with_score list" where
  "image_nodes_of [] = Inr []"
| "image_nodes_of (n # ns) =
     (case dict_get (metadata (node n)) ''image_path'' of
        Inl e \<Rightarrow> Inl e
      | Inr v \<Rightarrow>
          (case ImageNode v of
             Inl e \<Rightarrow> Inl e
           | Inr img \<Rightarrow>
               (case image_nodes_of ns of
                  Inl e \<Rightarrow> Inl e
                | Inr imgs \<Rightarrow> Inr (\<lparr>node = img, score = None\<rparr> # imgs))))"

text \<open>
  \<^verbatim>\<open>
  def custom_query(self, query_str: str):
      nodes = self.retriever.retrieve(query_str)
      image_nodes = [
          NodeWithScore(node=ImageNode(image_path=n.metadata["image_path"]))
          for n in nodes
      ]
      context_str = "\n\n".join(
          [r.get_content(metadata_mode=MetadataMode.LLM) for r in nodes]
      )
      fmt_prompt = self.qa_prompt.format(context_str=context_str, query_str=query_str)
      llm_response = self.multi_modal_llm.complete(
          prompt=fmt_prompt,
          image_documents=[image_node.node for image_node in image_nodes],
      )
      return Response(
          response=str(llm_response),
          source_nodes=nodes,
          metadata={"text_nodes": nodes, "image_nodes": image_nodes},
      )
  \<close>
  \<open>get_content\<close> is \<open>get_content(metadata_mode=MetadataMode.LLM)\<close> on a node, \<open>str_of\<close> is
  \<open>str\<close> on the reply of the multimodal service.
\<close>

definition custom_query ::
  "('sc, 'l) MultimodalQueryEngine \<Rightarrow> (text_node \<Rightarrow> string) \<Rightarrow> ('l \<Rightarrow> string) \<Rightarrow> string \<Rightarrow>
     py_error + 'sc response" where
  "custom_query self get_content str_of query_str =
     (let nodes = retriever self query_str
      in case image_nodes_of nodes of
           Inl e \<Rightarrow> Inl e
         | Inr image_nodes \<Rightarrow>
             (let context_str = join [newline, newline] (map (\<lambda>r. get_content (node r)) nodes);
                  fmt_prompt = qa_prompt self context_str query_str;
                  llm_response = multi_modal_llm self fmt_prompt (map node image_nodes)
              in Inr \<lparr>response = str_of llm_response,
                      source_nodes = nodes,
                      response_metadata =
                        \<lparr>meta_text_nodes = nodes, meta_image_nodes = image_nodes\<rparr>\<rparr>))"

section \<open>Properties of the page-number extraction\<close>

lemma strip_prefix_Some: "strip_prefix p s = Some r \<longleftrightarrow> s = p @ r"
  by (induction p s rule: strip_prefix.induct) auto

lemma strip_prefix_append: "strip_prefix p (p @ r) = Some r"
  by (simp add: strip_prefix_Some)

lemma str_contains_iff: "str_contains sub s \<longleftrightarrow> (\<exists>pre post. s = pre @ sub @ post)"
proof (induction s)
  case Nil
  then show ?case by auto
next
  case (Cons c cs)
  have "strip_prefix sub (c # cs) \<noteq> None \<longleftrightarrow> (\<exists>post. c # cs = sub @ post)"
    using strip_prefix_Some [of sub "c # cs"] by auto
  moreover have "(\<exists>pre post. c # cs = pre @ sub @ post) \<longleftrightarrow>
      (\<exists>post. c # cs = sub @ post) \<or> (\<exists>pre post. cs = pre @ sub @ post)"
  proof
    assume "\<exists>pre post. c # cs = pre @ sub @ post"
    then obtain pre post where e: "c # cs = pre @ sub @ post" by blast
    show "(\<exists>post. c # cs = sub @ post) \<or> (\<exists>pre post. cs = pre @ sub @ post)"
    proof (cases pre)
      case Nil
      with e show ?thesis by auto
    next
      case (Cons a pre')
      with e have "cs = pre' @ sub @ post" by simp
      then show ?thesis by blast
    qed
  next
    assume "(\<exists>post. c # cs = sub @ post) \<or> (\<exists>pre post. cs = pre @ sub @ post)"
    then show "\<exists>pre post. c # cs = pre @ sub @ post"
    proof
      assume "\<exists>post. c # cs = sub @ post"
      then obtain post where "c # cs = [] @ sub @ post" by auto
      then show ?thesis by blast
    next
      assume "\<exists>pre post. cs = pre @ sub @ post"
      then obtain pre post where "c # cs = (c # pre) @ sub @ post" by auto
      then show ?thesis by blast
    qed
  qed
  moreover have "str_contains sub (c # cs) \<longleftrightarrow>
      strip_prefix sub (c # cs) \<noteq> None \<or> str_contains sub cs"
    by (simp split: option.splits)
  ultimately show ?case using Cons.IH by blast
qed

lemma not_digit_chars [simp]:
  "\<not> is_digit CHR ''.''" "\<not> is_digit CHR ''-''" "\<not> is_digit CHR ''_''"
  by (simp_all add: is_digit_def)

lemma takeWhile_digits:
  "\<forall>c\<in>set ds. is_digit c \<Longrightarrow> \<not> is_digit x \<Longrightarrow> takeWhile is_digit (ds @ x # t) = ds"
  by (induction ds) auto

lemma dropWhile_digits:
  "\<forall>c\<in>set ds. is_digit c \<Longrightarrow> \<not> is_digit x \<Longrightarrow> dropWhile is_digit (ds @ x # t) = x # t"
  by (induction ds) auto

lemma match_here_iff:
  "match_here t = Some ds \<longleftrightarrow>
     ds \<noteq> [] \<and> (\<forall>c\<in>set ds. is_digit c) \<and>
     (t = ''-page_'' @ ds @ ''.jpg'' \<or> t = ''-page_'' @ ds @ ''.jpg'' @ [newline])"
proof
  assume m: "match_here t = Some ds"
  then obtain r where r: "t = ''-page_'' @ r"
    by (auto simp: match_here_def strip_prefix_Some split: option.splits)
  then have sp: "strip_prefix ''-page_'' t = Some r"
    by (simp only: strip_prefix_append)
  from m sp have ds: "ds = takeWhile is_digit r" "ds \<noteq> []"
    and rest: "dropWhile is_digit r = ''.jpg'' \<or> dropWhile is_digit r = ''.jpg'' @ [newline]"
    by (auto simp: match_here_def Let_def split: if_splits)
  have "r = ds @ dropWhile is_digit r" using ds by simp
  moreover have "\<forall>c\<in>set ds. is_digit c" using ds by (auto dest: set_takeWhileD)
  ultimately show "ds \<noteq> [] \<and> (\<forall>c\<in>set ds. is_digit c) \<and>
     (t = ''-page_'' @ ds @ ''.jpg'' \<or> t = ''-page_'' @ ds @ ''.jpg'' @ [newline])"
    using ds(2) rest r by auto
next
  assume a: "ds \<noteq> [] \<and> (\<forall>c\<in>set ds. is_digit c) \<and>
     (t = ''-page_'' @ ds @ ''.jpg'' \<or> t = ''-page_'' @ ds @ ''.jpg'' @ [newline])"
  then have d: "\<forall>c\<in>set ds. is_digit c" and ne: "ds \<noteq> []" by auto
  from a consider "t = ''-page_'' @ (ds @ ''.jpg'')" | "t = ''-page_'' @ (ds @ ''.jpg'' @ [newline])"
    by auto
  then show "match_here t = Some ds"
  proof cases
    case 1
    have "strip_prefix ''-page_'' t = Some (ds @ ''.jpg'')"
      unfolding 1 by (rule strip_prefix_append)
    then show ?thesis using ne takeWhile_digits [OF d, of "CHR ''.''" "''jpg''"]
        dropWhile_digits [OF d, of "CHR ''.''" "''jpg''"]
      by (simp add: match_here_def)
  next
    case 2
    have "strip_prefix ''-page_'' t = Some (ds @ ''.jpg'' @ [newline])"
      unfolding 2 by (rule strip_prefix_append)
    then show ?thesis using ne takeWhile_digits [OF d, of "CHR ''.''" "''jpg'' @ [newline]"]
        dropWhile_digits [OF d, of "CHR ''.''" "''jpg'' @ [newline]"]
      by (simp add: match_here_def)
  qed
qed


lemma match_here_dash:
  assumes "match_here t = Some ds"
  shows "\<exists>u. t = CHR ''-'' # u \<and> CHR ''-'' \<notin> set u"
proof -
  have d: "\<forall>c\<in>set ds. is_digit c" using assms by (simp add: match_here_iff)
  then have "CHR ''-'' \<notin> set ds" by auto
  moreover have "t = ''-page_'' @ ds @ ''.jpg'' \<or> t = ''-page_'' @ ds @ ''.jpg'' @ [newline]"
    using assms by (simp add: match_here_iff)
  ultimately show ?thesis by (auto simp: newline_def)
qed

lemma re_search_sound:
  "re_search s = Some ds \<Longrightarrow> \<exists>pre t. s = pre @ t \<and> match_here t = Some ds"
proof (induction s)
  case Nil
  then show ?case by auto
next
  case (Cons c cs)
  show ?case
  proof (cases "match_here (c # cs)")
    case None
    with Cons.prems have "re_search cs = Some ds" by simp
    then obtain pre t where "cs = pre @ t" "match_here t = Some ds"
      using Cons.IH by blast
    then have "c # cs = (c # pre) @ t \<and> match_here t = Some ds" by simp
    then show ?thesis by blast
  next
    case (Some ds')
    with Cons.prems have "match_here (c # cs) = Some ds" by simp
    then have "c # cs = [] @ (c # cs) \<and> match_here (c # cs) = Some ds" by simp
    then show ?thesis by blast
  qed
qed

lemma re_search_complete:
  "match_here t = Some ds \<Longrightarrow> re_search (pre @ t) = Some ds"
proof (induction pre)
  case Nil
  then obtain u where "t = CHR ''-'' # u" using match_here_dash by blast
  with Nil show ?case by simp
next
  case (Cons c pre)
  obtain u where u: "t = CHR ''-'' # u" using match_here_dash [OF Cons.prems] by blast
  have "match_here (c # pre @ t) = None"
  proof (cases "match_here (c # pre @ t)")
    case None
    then show ?thesis .
  next
    case (Some ds')
    then obtain w where "c # pre @ t = CHR ''-'' # w" "CHR ''-'' \<notin> set w"
      using match_here_dash by blast
    with u show ?thesis by auto
  qed
  with Cons show ?case by simp
qed

lemma re_search_iff:
  "re_search s = Some ds \<longleftrightarrow> (\<exists>pre t. s = pre @ t \<and> match_here t = Some ds)"
  using re_search_sound re_search_complete by blast


lemma page_suffix_iff:
  "page_suffix u = Some ds \<longleftrightarrow>
     ds \<noteq> [] \<and> (\<forall>c\<in>set ds. is_digit c) \<and> (\<exists>pre. u = pre @ ''-page_'' @ ds @ ''.jpg'')"
proof
  assume p: "page_suffix u = Some ds"
  then obtain r where r: "rev u = rev ''.jpg'' @ r"
    by (auto simp: page_suffix_def strip_prefix_Some split: option.splits)
  then have sp: "strip_prefix (rev ''.jpg'') (rev u) = Some r"
    by (simp only: strip_prefix_append)
  from p sp have ds: "ds = rev (takeWhile is_digit r)" "ds \<noteq> []"
    and "strip_prefix (rev ''-page_'') (dropWhile is_digit r) \<noteq> None"
    by (auto simp: page_suffix_def Let_def split: if_splits)
  then obtain q where q: "dropWhile is_digit r = rev ''-page_'' @ q"
    by (auto simp: strip_prefix_Some)
  have "r = rev ds @ dropWhile is_digit r" using ds by simp
  with q r have "rev u = rev ''.jpg'' @ rev ds @ rev ''-page_'' @ q" by simp
  then have "rev (rev u) = rev (rev ''.jpg'' @ rev ds @ rev ''-page_'' @ q)" by simp
  then have "u = rev q @ ''-page_'' @ ds @ ''.jpg''" by simp
  moreover have "\<forall>c\<in>set ds. is_digit c" using ds by (auto dest: set_takeWhileD)
  ultimately show "ds \<noteq> [] \<and> (\<forall>c\<in>set ds. is_digit c) \<and> (\<exists>pre. u = pre @ ''-page_'' @ ds @ ''.jpg'')"
    using ds(2) by blast
next
  assume a: "ds \<noteq> [] \<and> (\<forall>c\<in>set ds. is_digit c) \<and> (\<exists>pre. u = pre @ ''-page_'' @ ds @ ''.jpg'')"
  then obtain pre where u: "u = pre @ ''-page_'' @ ds @ ''.jpg''" by blast
  from a have d: "\<forall>c\<in>set (rev ds). is_digit c" and ne: "ds \<noteq> []" by auto
  have "rev u = rev ''.jpg'' @ (rev ds @ CHR ''_'' # (''egap-'' @ rev pre))"
    unfolding u by simp
  then have "strip_prefix (rev ''.jpg'') (rev u) = Some (rev ds @ CHR ''_'' # (''egap-'' @ rev pre))"
    by (simp only: strip_prefix_append)
  then show "page_suffix u = Some ds"
    using ne takeWhile_digits [OF d, of "CHR ''_''" "''egap-'' @ rev pre"]
      dropWhile_digits [OF d, of "CHR ''_''" "''egap-'' @ rev pre"]
    by (simp add: page_suffix_def)
qed

lemma chomp_jpg:
  "chomp s = x @ ''.jpg'' \<longleftrightarrow> s = x @ ''.jpg'' \<or> s = x @ ''.jpg'' @ [newline]"
proof (cases "s \<noteq> [] \<and> last s = newline")
  case True
  then have s: "s = butlast s @ [newline]" by (metis append_butlast_last_id)
  have c: "chomp s = butlast s" using True by (simp add: chomp_def)
  have "s \<noteq> x @ ''.jpg''"
  proof
    assume "s = x @ ''.jpg''"
    then have "last s = CHR ''g''" by simp
    with True show False by (simp add: newline_def)
  qed
  moreover have "butlast s = x @ ''.jpg'' \<longleftrightarrow> s = x @ ''.jpg'' @ [newline]"
  proof
    assume "butlast s = x @ ''.jpg''"
    with s show "s = x @ ''.jpg'' @ [newline]" by simp
  next
    assume "s = x @ ''.jpg'' @ [newline]"
    then have "butlast s = butlast ((x @ ''.jpg'') @ [newline])" by simp
    then show "butlast s = x @ ''.jpg''" by (simp only: butlast_snoc)
  qed
  ultimately show ?thesis using c by simp
next
  case False
  then have c: "chomp s = s" by (auto simp: chomp_def)
  have "s \<noteq> x @ ''.jpg'' @ [newline]"
  proof
    assume e: "s = x @ ''.jpg'' @ [newline]"
    then have "s = (x @ ''.jpg'') @ [newline]" by simp
    then have "last s = newline" by (simp only: last_snoc)
    with e False show False by simp
  qed
  then show ?thesis using c by simp
qed

lemma re_search_Some_iff:
  "re_search s = Some ds \<longleftrightarrow> page_suffix (chomp s) = Some ds"
proof -
  have "re_search s = Some ds \<longleftrightarrow>
      ds \<noteq> [] \<and> (\<forall>c\<in>set ds. is_digit c) \<and>
      (\<exists>pre. s = (pre @ ''-page_'' @ ds) @ ''.jpg'' \<or> s = (pre @ ''-page_'' @ ds) @ ''.jpg'' @ [newline])"
    unfolding re_search_iff match_here_iff by auto
  also have "\<dots> \<longleftrightarrow> ds \<noteq> [] \<and> (\<forall>c\<in>set ds. is_digit c) \<and>
      (\<exists>pre. chomp s = (pre @ ''-page_'' @ ds) @ ''.jpg'')"
    by (simp only: chomp_jpg)
  also have "\<dots> \<longleftrightarrow> page_suffix (chomp s) = Some ds"
    unfolding page_suffix_iff by simp
  finally show ?thesis .
qed

lemma re_search_eq: "re_search s = page_suffix (chomp s)"
proof (cases "re_search s")
  case None
  show ?thesis
  proof (cases "page_suffix (chomp s)")
    case None
    with \<open>re_search s = None\<close> show ?thesis by simp
  next
    case (Some ds)
    then have "re_search s = Some ds" by (simp only: re_search_Some_iff)
    with None show ?thesis by simp
  qed
next
  case (Some ds)
  then show ?thesis by (simp add: re_search_Some_iff)
qed

lemma get_page_number_match:
  assumes "ds \<noteq> []" and "\<forall>c\<in>set ds. is_digit c"
  shows "get_page_number (pre @ ''-page_'' @ ds @ ''.jpg'') = int_of_digits ds"
proof -
  let ?s = "pre @ ''-page_'' @ ds @ ''.jpg''"
  have "?s = (pre @ ''-page_'' @ ds @ ''.jp'') @ ''g''" by simp
  then have "last ?s = CHR ''g''" by (simp only: last_snoc)
  then have "chomp ?s = ?s" by (simp add: chomp_def newline_def)
  moreover have "page_suffix ?s = Some ds"
    unfolding page_suffix_iff using assms by blast
  ultimately show ?thesis by (simp add: get_page_number_def re_search_eq)
qed

text \<open>
  Claim C4, as the code has it. \<open>get_page_number\<close> returns the integer value of
  \<open><digits>\<close> exactly when the file name, after dropping one final newline if there is
  one, ends with \<open>-page_<digits>.jpg\<close>, and the sentinel 0 otherwise; so
  \<open>abc-page_7.jpg\<close> gives 7 and \<open>no_match.png\<close> gives 0. (What ending with the pattern
  means is \<open>page_suffix_iff\<close>.)
\<close>

theorem get_page_number_trailing:
  "get_page_number s =
     (case page_suffix (chomp s) of Some ds \<Rightarrow> int_of_digits ds | None \<Rightarrow> 0)"
  by (simp add: get_page_number_def re_search_eq)

theorem get_page_number_trailing_witness:
  "get_page_number ''abc-page_7.jpg'' = 7 \<and> get_page_number ''no_match.png'' = 0"
  using get_page_number_trailing [of "''abc-page_7.jpg''"]
    get_page_number_trailing [of "''no_match.png''"]
  by (simp add: page_suffix_def chomp_def is_digit_def int_of_digits_def digit_val_def
      newline_def)

text \<open>
  Claim C4 as stated fails for a name that ends with the pattern followed by a newline:
  the name does not end with \<open>-page_<digits>.jpg\<close>, and the result is 7, not the sentinel.
\<close>

theorem get_page_number_newline_counterexample:
  "page_suffix (''abc-page_7.jpg'' @ [newline]) = None \<and>
   get_page_number (''abc-page_7.jpg'' @ [newline]) = 7"
  by (simp add: page_suffix_def get_page_number_def match_here_def is_digit_def
      int_of_digits_def digit_val_def newline_def)

section \<open>Properties of the page chunks\<close>

lemma md_texts_of_length: "md_texts_of js = Inr mds \<Longrightarrow> length mds = length js"
  by (induction js arbitrary: mds) (auto split: sum.splits)

lemma md_texts_of_total:
  "(\<And>d. d \<in> set js \<Longrightarrow> map_of d ''md'' \<noteq> None) \<Longrightarrow> \<exists>mds. md_texts_of js = Inr mds"
  by (induction js) (auto simp: dict_get_def split: sum.splits option.splits)

lemma text_nodes_loop_ok:
  "rest = drop idx mds \<Longrightarrow> length mds \<le> length fs \<Longrightarrow>
   text_nodes_loop fs mds idx rest acc = Inr (acc @ map (page_chunk fs mds) [idx..<length mds])"
proof (induction rest arbitrary: idx acc)
  case Nil
  then have "length mds \<le> idx" by simp
  then show ?case by simp
next
  case (Cons md rest)
  from Cons.prems(1) have lt: "idx < length mds"
    by (metis drop_all list.distinct(1) not_le)
  then have r: "rest = drop (Suc idx) mds"
    using Cons.prems(1) by (metis Cons_nth_drop_Suc list.inject)
  have up: "[idx..<length mds] = idx # [Suc idx..<length mds]"
    using lt by (simp add: upt_conv_Cons)
  show ?case
    using lt Cons.prems(2) Cons.IH [OF r Cons.prems(2)]
    by (simp add: list_get_def page_chunk_def up)
qed

lemma text_nodes_loop_err:
  "rest = drop idx mds \<Longrightarrow> idx \<le> length fs \<Longrightarrow> length fs < length mds \<Longrightarrow>
   text_nodes_loop fs mds idx rest acc = Inl IndexError"
proof (induction rest arbitrary: idx acc)
  case Nil
  then show ?case by simp
next
  case (Cons md rest)
  from Cons.prems(1) have lt: "idx < length mds"
    by (metis drop_all list.distinct(1) not_le)
  then have r: "rest = drop (Suc idx) mds"
    using Cons.prems(1) by (metis Cons_nth_drop_Suc list.inject)
  show ?case
  proof (cases "idx < length fs")
    case True
    then have "Suc idx \<le> length fs" by simp
    from Cons.IH [OF r this Cons.prems(3)] True lt show ?thesis
      by (simp add: list_get_def)
  next
    case False
    then show ?thesis by (simp add: list_get_def)
  qed
qed

lemma get_text_nodes_eq:
  assumes "md_texts_of json_dicts = Inr mds"
  shows "get_text_nodes image_dir json_dicts =
     (if length mds \<le> length (get_sorted_image_files image_dir)
      then Inr (map (page_chunk (get_sorted_image_files image_dir) mds) [0..<length mds])
      else Inl IndexError)"
proof (cases "length mds \<le> length (get_sorted_image_files image_dir)")
  case True
  then show ?thesis
    using assms text_nodes_loop_ok [of mds 0 mds "get_sorted_image_files image_dir" "[]"]
    by (simp add: get_text_nodes_def)
next
  case False
  then show ?thesis
    using assms text_nodes_loop_err [of mds 0 mds "get_sorted_image_files image_dir" "[]"]
    by (simp add: get_text_nodes_def)
qed

lemma page_number_contains:
  assumes "get_page_number s \<noteq> 0"
  shows "str_contains ''-page'' s"
proof -
  from assms obtain ds where "re_search s = Some ds"
    by (auto simp: get_page_number_def split: option.splits)
  then obtain pre t where s: "s = pre @ t" and m: "match_here t = Some ds"
    using re_search_sound by blast
  from m have "t = ''-page_'' @ ds @ ''.jpg'' \<or> t = ''-page_'' @ ds @ ''.jpg'' @ [newline]"
    by (simp add: match_here_iff)
  then obtain post where "t = ''-page'' @ post" by auto
  with s have "s = pre @ ''-page'' @ post" by simp
  then show ?thesis unfolding str_contains_iff by blast
qed

lemma sorted_same_mset:
  fixes xs ys :: "int list"
  assumes "mset xs = mset ys" "sorted xs" "sorted ys"
  shows "xs = ys"
  using assms by (metis properties_for_sort)

lemma sorted_pages: "sorted (map int [1..<Suc n])"
  by (simp add: sorted_map sorted_wrt_iff_nth_less del: upt_Suc)

lemma sorted_keys_eq:
  assumes "mset (map k raw) = mset (map int [1..<Suc n])"
  shows "map k (sort_key k raw) = map int [1..<Suc n]"
proof (rule sorted_same_mset)
  show "mset (map k (sort_key k raw)) = mset (map int [1..<Suc n])"
    using assms by simp
  show "sorted (map k (sort_key k raw))" by simp
  show "sorted (map int [1..<Suc n])" by (rule sorted_pages)
qed

lemma raw_files_regular:
  assumes "mset (map (\<lambda>f. get_page_number (path_str f)) (filter is_file image_dir)) =
           mset (map int [1..<Suc n])"
  shows "filter (\<lambda>f. is_file f \<and> str_contains ''-page'' (path_str f)) image_dir =
         filter is_file image_dir"
proof (rule filter_cong [OF refl])
  fix f assume f: "f \<in> set image_dir"
  show "(is_file f \<and> str_contains ''-page'' (path_str f)) = is_file f"
  proof (cases "is_file f")
    case False
    then show ?thesis by simp
  next
    case True
    with f have "get_page_number (path_str f) \<in>
        set (map (\<lambda>f. get_page_number (path_str f)) (filter is_file image_dir))"
      by auto
    then have "get_page_number (path_str f) \<in># mset (map int [1..<Suc n])"
      using assms by (metis set_mset_mset)
    then have "get_page_number (path_str f) \<noteq> 0" by auto
    then show ?thesis using True page_number_contains by simp
  qed
qed

lemma sorted_image_files_pages:
  assumes "mset (map (\<lambda>f. get_page_number (path_str f)) (filter is_file image_dir)) =
           mset (map int [1..<Suc n])"
  shows "map (\<lambda>f. get_page_number (path_str f)) (get_sorted_image_files image_dir) =
         map int [1..<Suc n]"
  unfolding get_sorted_image_files_def Let_def raw_files_regular [OF assms]
  by (rule sorted_keys_eq [OF assms])

lemmas eval_defs = get_page_number_def match_here_def is_digit_def int_of_digits_def
  digit_val_def newline_def get_sorted_image_files_def get_text_nodes_def list_get_def
  dict_get_def page_chunk_def

text \<open>
  Claim C9, as the code has it. A directory entry is in the list that
  \<open>_get_sorted_image_files\<close> returns exactly when it is a regular file whose path string
  \<open>str(f)\<close> (the directory's path included) contains \<open>-page\<close>, and it is there as often
  as the directory lists it; every other entry is left out of the pairing.
\<close>

theorem get_sorted_image_files_members:
  "(f \<in> set (get_sorted_image_files image_dir) \<longleftrightarrow>
      f \<in> set image_dir \<and> is_file f \<and> str_contains ''-page'' (path_str f)) \<and>
   mset (get_sorted_image_files image_dir) =
     filter_mset (\<lambda>f. is_file f \<and> str_contains ''-page'' (path_str f)) (mset image_dir)"
  by (auto simp: get_sorted_image_files_def)

text \<open>
  In a directory \<open>data_images\<close>, the file \<open>no_match.png\<close> and a subdirectory are left out.
\<close>

theorem get_sorted_image_files_members_witness:
  "get_sorted_image_files
     [\<lparr>path_str = ''data_images/no_match.png'', is_file = True\<rparr>,
      \<lparr>path_str = ''data_images/abc-page_7.jpg'', is_file = True\<rparr>,
      \<lparr>path_str = ''data_images/sub-page_1.jpg'', is_file = False\<rparr>] =
     [\<lparr>path_str = ''data_images/abc-page_7.jpg'', is_file = True\<rparr>] \<and>
   \<lparr>path_str = ''data_images/no_match.png'', is_file = True\<rparr> \<notin>
     set (get_sorted_image_files
       [\<lparr>path_str = ''data_images/no_match.png'', is_file = True\<rparr>,
        \<lparr>path_str = ''data_images/abc-page_7.jpg'', is_file = True\<rparr>,
        \<lparr>path_str = ''data_images/sub-page_1.jpg'', is_file = False\<rparr>])"
  using get_sorted_image_files_members
    [of "\<lparr>path_str = ''data_images/no_match.png'', is_file = True\<rparr>"
        "[\<lparr>path_str = ''data_images/no_match.png'', is_file = True\<rparr>,
          \<lparr>path_str = ''data_images/abc-page_7.jpg'', is_file = True\<rparr>,
          \<lparr>path_str = ''data_images/sub-page_1.jpg'', is_file = False\<rparr>]"]
  by (simp add: get_sorted_image_files_def)

text \<open>
  Claim C9 as stated, with the test on the file's name, fails in a directory whose own path
  contains \<open>-page\<close>: the file \<open>no_match.png\<close> of the directory \<open>out-pages\<close> is kept, with the
  sentinel page number 0.
\<close>

theorem get_sorted_image_files_directory_counterexample:
  "file_name ''out-pages/no_match.png'' = ''no_match.png'' \<and>
   \<not> str_contains ''-page'' (file_name ''out-pages/no_match.png'') \<and>
   get_sorted_image_files [\<lparr>path_str = ''out-pages/no_match.png'', is_file = True\<rparr>] =
     [\<lparr>path_str = ''out-pages/no_match.png'', is_file = True\<rparr>] \<and>
   get_page_number ''out-pages/no_match.png'' = 0"
  by (simp add: file_name_def eval_defs)

text \<open>
  Claim C1. When the regular files of the image directory carry exactly the page numbers
  \<open>1 .. n\<close> in their names, \<open>n\<close> the number of page records (each with its \<open>md\<close> text),
  \<open>get_text_nodes\<close> returns \<open>n\<close> chunks, and chunk \<open>i\<close> has \<open>page_num = i + 1\<close>, the text of
  record \<open>i\<close>, and the path of the \<open>i\<close>-th image file in page order, whose name carries
  the page number \<open>i + 1\<close>.
\<close>

theorem get_text_nodes_page_numbers:
  assumes pages:
    "mset (map (\<lambda>f. get_page_number (path_str f)) (filter is_file image_dir)) =
     mset (map int [1..<Suc (length json_dicts)])"
    and md: "\<forall>d\<in>set json_dicts. map_of d ''md'' \<noteq> None"
  shows "\<exists>nodes. get_text_nodes image_dir json_dicts = Inr nodes \<and>
     length nodes = length json_dicts \<and>
     (\<forall>i<length json_dicts.
        dict_get (metadata (nodes ! i)) ''page_num'' = Inr (PInt (int i + 1)) \<and>
        dict_get (metadata (nodes ! i)) ''image_path'' =
          Inr (PStr (path_str (get_sorted_image_files image_dir ! i))) \<and>
        dict_get (metadata (nodes ! i)) ''parsed_text_markdown'' =
          dict_get (json_dicts ! i) ''md'' \<and>
        get_page_number (path_str (get_sorted_image_files image_dir ! i)) = int i + 1)"
proof -
  let ?n = "length json_dicts"
  let ?fs = "get_sorted_image_files image_dir"
  let ?k = "\<lambda>f. get_page_number (path_str f)"
  obtain mds where mds: "md_texts_of json_dicts = Inr mds"
    using md md_texts_of_total [of json_dicts] by blast
  then have len: "length mds = ?n" by (rule md_texts_of_length)
  have keys: "map ?k ?fs = map int [1..<Suc ?n]"
    by (rule sorted_image_files_pages [OF pages])
  then have "length (map ?k ?fs) = length (map int [1..<Suc ?n])" by (rule arg_cong)
  then have flen: "length ?fs = ?n" by (simp del: upt_Suc)
  have res: "get_text_nodes image_dir json_dicts = Inr (map (page_chunk ?fs mds) [0..<?n])"
    using get_text_nodes_eq [OF mds, of image_dir] len flen by simp
  have "\<forall>i<?n.
        dict_get (metadata (map (page_chunk ?fs mds) [0..<?n] ! i)) ''page_num'' =
          Inr (PInt (int i + 1)) \<and>
        dict_get (metadata (map (page_chunk ?fs mds) [0..<?n] ! i)) ''image_path'' =
          Inr (PStr (path_str (?fs ! i))) \<and>
        dict_get (metadata (map (page_chunk ?fs mds) [0..<?n] ! i)) ''parsed_text_markdown'' =
          dict_get (json_dicts ! i) ''md'' \<and>
        ?k (?fs ! i) = int i + 1"
  proof (intro allI impI)
    fix i assume i: "i < ?n"
    have "map ?k ?fs ! i = map int [1..<Suc ?n] ! i" using keys by simp
    then have k: "?k (?fs ! i) = int i + 1"
      using i flen by (simp del: upt_Suc add: nth_map)
    have "dict_get (json_dicts ! i) ''md'' = Inr (mds ! i)"
      using mds i
    proof (induction json_dicts arbitrary: mds i)
      case Nil
      then show ?case by simp
    next
      case (Cons d ds)
      then show ?case by (cases i) (auto split: sum.splits)
    qed
    then show "dict_get (metadata (map (page_chunk ?fs mds) [0..<?n] ! i)) ''page_num'' =
          Inr (PInt (int i + 1)) \<and>
        dict_get (metadata (map (page_chunk ?fs mds) [0..<?n] ! i)) ''image_path'' =
          Inr (PStr (path_str (?fs ! i))) \<and>
        dict_get (metadata (map (page_chunk ?fs mds) [0..<?n] ! i)) ''parsed_text_markdown'' =
          dict_get (json_dicts ! i) ''md'' \<and>
        ?k (?fs ! i) = int i + 1"
      using i k by (simp add: page_chunk_def dict_get_def)
  qed
  with res show ?thesis by simp
qed

text \<open>Two pages, the image files listed in reverse order.\<close>

theorem get_text_nodes_page_numbers_witness:
  "mset (map (\<lambda>f. get_page_number (path_str f))
      (filter is_file [\<lparr>path_str = ''imgs/doc-page_2.jpg'', is_file = True\<rparr>,
                       \<lparr>path_str = ''imgs/doc-page_1.jpg'', is_file = True\<rparr>])) =
     mset (map int [1..<Suc (length [ [(''md'', PStr ''first'')], [(''md'', PStr ''second'')] ])]) \<and>
   get_text_nodes
     [\<lparr>path_str = ''imgs/doc-page_2.jpg'', is_file = True\<rparr>,
      \<lparr>path_str = ''imgs/doc-page_1.jpg'', is_file = True\<rparr>]
     [ [(''md'', PStr ''first'')], [(''md'', PStr ''second'')] ] =
   Inr [\<lparr>text = [], metadata = [(''page_num'', PInt 1), (''image_path'', PStr ''imgs/doc-page_1.jpg''),
                                   (''parsed_text_markdown'', PStr ''first'')]\<rparr>,
        \<lparr>text = [], metadata = [(''page_num'', PInt 2), (''image_path'', PStr ''imgs/doc-page_2.jpg''),
                                   (''parsed_text_markdown'', PStr ''second'')]\<rparr>]"
  using get_text_nodes_page_numbers
    [of "[\<lparr>path_str = ''imgs/doc-page_2.jpg'', is_file = True\<rparr>,
          \<lparr>path_str = ''imgs/doc-page_1.jpg'', is_file = True\<rparr>]"
        "[ [(''md'', PStr ''first'')], [(''md'', PStr ''second'')] ]"]
  by (simp add: eval_defs)

text \<open>
  Claim C5, as the code has it. With more image files than text records, \<open>get_text_nodes\<close>
  returns one chunk per text record, record \<open>i\<close> paired with the image file at position
  \<open>i\<close> of the sorted list, and raises nothing; with fewer image files than text records it
  raises \<open>IndexError\<close> and returns no chunk list.
\<close>

theorem get_text_nodes_count_mismatch:
  assumes "md_texts_of json_dicts = Inr md_texts"
  shows "(length md_texts < length (get_sorted_image_files image_dir) \<longrightarrow>
            get_text_nodes image_dir json_dicts =
              Inr (map (page_chunk (get_sorted_image_files image_dir) md_texts)
                     [0..<length md_texts])) \<and>
         (length (get_sorted_image_files image_dir) < length md_texts \<longrightarrow>
            get_text_nodes image_dir json_dicts = Inl IndexError)"
  using get_text_nodes_eq [OF assms, of image_dir] by simp

text \<open>Two image files and one text record.\<close>

theorem get_text_nodes_count_mismatch_witness:
  "md_texts_of [ [(''md'', PStr ''first'')] ] = Inr [PStr ''first''] \<and>
   length (get_sorted_image_files
     [\<lparr>path_str = ''imgs/doc-page_2.jpg'', is_file = True\<rparr>,
      \<lparr>path_str = ''imgs/doc-page_1.jpg'', is_file = True\<rparr>]) = 2 \<and>
   get_text_nodes
     [\<lparr>path_str = ''imgs/doc-page_2.jpg'', is_file = True\<rparr>,
      \<lparr>path_str = ''imgs/doc-page_1.jpg'', is_file = True\<rparr>]
     [ [(''md'', PStr ''first'')] ] =
   Inr [\<lparr>text = [], metadata = [(''page_num'', PInt 1), (''image_path'', PStr ''imgs/doc-page_1.jpg''),
                                   (''parsed_text_markdown'', PStr ''first'')]\<rparr>]"
  using get_text_nodes_count_mismatch
    [of "[ [(''md'', PStr ''first'')] ]" "[PStr ''first'']"
        "[\<lparr>path_str = ''imgs/doc-page_2.jpg'', is_file = True\<rparr>,
          \<lparr>path_str = ''imgs/doc-page_1.jpg'', is_file = True\<rparr>]"]
  by (simp add: eval_defs)

text \<open>
  Claim C5 as stated fails when the image files are fewer: one image file and two text
  records end in \<open>IndexError\<close>, not in a chunk list.
\<close>

theorem get_text_nodes_fewer_images_counterexample:
  "length (get_sorted_image_files [\<lparr>path_str = ''imgs/doc-page_1.jpg'', is_file = True\<rparr>]) = 1 \<and>
   length [ [(''md'', PStr ''first'')], [(''md'', PStr ''second'')] ] = 2 \<and>
   get_text_nodes [\<lparr>path_str = ''imgs/doc-page_1.jpg'', is_file = True\<rparr>]
     [ [(''md'', PStr ''first'')], [(''md'', PStr ''second'')] ] = Inl IndexError"
  by (simp add: eval_defs)

lemma dropWhile_spaces_append:
  "\<forall>c\<in>set w. is_space c \<Longrightarrow> dropWhile is_space (w @ s) = dropWhile is_space s"
  by (induction w) auto

lemma strip_append_spaces:
  assumes "\<forall>c\<in>set w. is_space c"
  shows "strip (s @ w) = strip s"
proof -
  have "\<forall>c\<in>set (rev w). is_space c" using assms by simp
  then have "dropWhile is_space (rev w @ rev s) = dropWhile is_space (rev s)"
    by (rule dropWhile_spaces_append)
  then show ?thesis by (simp add: strip_def)
qed


lemma dropWhile_no_head: "xs \<noteq> [] \<Longrightarrow> \<not> P (hd xs) \<Longrightarrow> dropWhile P xs = xs"
  by (cases xs) auto

lemma strip_ends:
  assumes "strip s \<noteq> []"
  shows "\<not> is_space (hd (strip s))" and "\<not> is_space (last (strip s))"
proof -
  let ?a = "dropWhile is_space (rev s)"
  show "\<not> is_space (hd (strip s))"
    using assms unfolding strip_def by (rule hd_dropWhile)
  have a: "?a \<noteq> []"
  proof
    assume "?a = []"
    then have "dropWhile is_space (rev ?a) = []" by (simp only: rev.simps dropWhile.simps)
    then have "strip s = []" by (simp only: strip_def)
    with assms show False by simp
  qed
  then have h: "\<not> is_space (hd ?a)" by (rule hd_dropWhile)
  then have "\<not> is_space (last (rev ?a))" using a by (simp add: last_rev)
  moreover have "\<exists>p. rev ?a = p @ strip s"
    unfolding strip_def by (metis takeWhile_dropWhile_id)
  then obtain p where "rev ?a = p @ strip s" by blast
  then have "last (rev ?a) = last (strip s)" using assms by simp
  ultimately show "\<not> is_space (last (strip s))" by simp
qed

lemma strip_idem: "strip (strip s) = strip s"
proof (cases "strip s = []")
  case True
  have "strip [] = []" by (simp add: strip_def)
  with True show ?thesis by simp
next
  case False
  let ?t = "strip s"
  have l: "\<not> is_space (last ?t)" and h: "\<not> is_space (hd ?t)"
    using strip_ends [OF False] by simp_all
  have "hd (rev ?t) = last ?t" using False by (simp add: hd_rev)
  then have "dropWhile is_space (rev ?t) = rev ?t"
    using l False by (intro dropWhile_no_head) simp_all
  moreover have "dropWhile is_space ?t = ?t" using h False by (intro dropWhile_no_head)
  ultimately show ?thesis by (simp add: strip_def [of ?t])
qed

lemma get_content_mode_empty_text:
  assumes "text n = []"
  shows "get_content_mode mode n = strip (get_metadata_str mode n)"
proof -
  have sp: "\<forall>c\<in>set [newline, newline]. is_space c" by (simp add: is_space_def newline_def)
  have "strip (strip (get_metadata_str mode n) @ [newline, newline]) =
      strip (get_metadata_str mode n)"
    using strip_append_spaces [OF sp] strip_idem by simp
  moreover have "mode = Mode_NONE \<Longrightarrow> strip (get_metadata_str mode n) = []"
    by (simp add: get_metadata_str_def strip_def)
  ultimately show ?thesis using assms by (auto simp: get_content_mode_def Let_def)
qed

lemma md_texts_of_nth:
  "md_texts_of js = Inr mds \<Longrightarrow> i < length js \<Longrightarrow> dict_get (js ! i) ''md'' = Inr (mds ! i)"
proof (induction js arbitrary: mds i)
  case Nil
  then show ?case by simp
next
  case (Cons d ds)
  then show ?case by (cases i) (auto split: sum.splits)
qed

text \<open>
  Claim C10. \<open>get_text_nodes\<close> returns one node per page record, and node \<open>i\<close> has the empty
  string as its text and a metadata dictionary with exactly the three entries \<open>page_num\<close>
  (the number \<open>i + 1\<close>), \<open>image_path\<close> (the path of the image file at position \<open>i\<close>) and
  \<open>parsed_text_markdown\<close> (the \<open>md\<close> text of record \<open>i\<close>), in this order. Consequently the
  content of the node, in every metadata mode that shows metadata, is the rendering of
  these three entries and nothing else; with no metadata shown it is empty.
\<close>

theorem get_text_nodes_content_in_metadata:
  assumes "get_text_nodes image_dir json_dicts = Inr nodes"
  shows "length nodes = length json_dicts \<and>
     (\<forall>i<length nodes. \<exists>md.
        i < length (get_sorted_image_files image_dir) \<and>
        dict_get (json_dicts ! i) ''md'' = Inr md \<and>
        nodes ! i =
          \<lparr>text = [],
           metadata = [(''page_num'', PInt (int i + 1)),
                       (''image_path'', PStr (path_str (get_sorted_image_files image_dir ! i))),
                       (''parsed_text_markdown'', md)]\<rparr> \<and>
        (\<forall>mode. get_content_mode mode (nodes ! i) =
           (if mode = Mode_NONE then []
            else strip (''page_num: '' @ str_of_int (int i + 1) @ [newline] @
                        ''image_path: '' @ path_str (get_sorted_image_files image_dir ! i) @
                        [newline] @
                        ''parsed_text_markdown: '' @ str_of_pyval md))))"
proof -
  let ?fs = "get_sorted_image_files image_dir"
  obtain mds where mds: "md_texts_of json_dicts = Inr mds"
    using assms by (auto simp: get_text_nodes_def split: sum.splits)
  have len: "length mds = length json_dicts" using mds by (rule md_texts_of_length)
  have le: "length mds \<le> length ?fs"
    using get_text_nodes_eq [OF mds, of image_dir] assms by (simp split: if_splits)
  have nodes: "nodes = map (page_chunk ?fs mds) [0..<length mds]"
    using get_text_nodes_eq [OF mds, of image_dir] assms by (simp split: if_splits)
  have "\<exists>md. i < length ?fs \<and> dict_get (json_dicts ! i) ''md'' = Inr md \<and>
        nodes ! i =
          \<lparr>text = [],
           metadata = [(''page_num'', PInt (int i + 1)),
                       (''image_path'', PStr (path_str (?fs ! i))),
                       (''parsed_text_markdown'', md)]\<rparr> \<and>
        (\<forall>mode. get_content_mode mode (nodes ! i) =
           (if mode = Mode_NONE then []
            else strip (''page_num: '' @ str_of_int (int i + 1) @ [newline] @
                        ''image_path: '' @ path_str (?fs ! i) @ [newline] @
                        ''parsed_text_markdown: '' @ str_of_pyval md)))"
    if i: "i < length nodes" for i
  proof -
    have i': "i < length mds" using i nodes by simp
    have n: "nodes ! i =
          \<lparr>text = [],
           metadata = [(''page_num'', PInt (int i + 1)),
                       (''image_path'', PStr (path_str (?fs ! i))),
                       (''parsed_text_markdown'', mds ! i)]\<rparr>"
      using i' nodes by (simp add: page_chunk_def)
    have md: "dict_get (json_dicts ! i) ''md'' = Inr (mds ! i)"
      using md_texts_of_nth [OF mds] i' len by simp
    have c: "get_content_mode mode (nodes ! i) =
           (if mode = Mode_NONE then []
            else strip (''page_num: '' @ str_of_int (int i + 1) @ [newline] @
                        ''image_path: '' @ path_str (?fs ! i) @ [newline] @
                        ''parsed_text_markdown: '' @ str_of_pyval (mds ! i)))" for mode
    proof -
      have "get_content_mode mode (nodes ! i) = strip (get_metadata_str mode (nodes ! i))"
        by (rule get_content_mode_empty_text) (simp add: n)
      moreover have "strip [] = []" by (simp add: strip_def)
      ultimately show ?thesis unfolding n by (simp add: get_metadata_str_def)
    qed
    from i' le n md c show ?thesis by auto
  qed
  then show ?thesis using nodes len by simp
qed

text \<open>One page; a page number of two digits is rendered by its digits.\<close>

theorem get_text_nodes_content_in_metadata_witness:
  "get_text_nodes [\<lparr>path_str = ''imgs/doc-page_1.jpg'', is_file = True\<rparr>]
     [ [(''md'', PStr (''# First'' @ [newline]))] ] =
     Inr [\<lparr>text = [], metadata = [(''page_num'', PInt 1), (''image_path'', PStr ''imgs/doc-page_1.jpg''),
                                     (''parsed_text_markdown'', PStr (''# First'' @ [newline]))]\<rparr>] \<and>
   get_content_mode Mode_ALL
     \<lparr>text = [], metadata = [(''page_num'', PInt 1), (''image_path'', PStr ''imgs/doc-page_1.jpg''),
                              (''parsed_text_markdown'', PStr (''# First'' @ [newline]))]\<rparr> =
     ''page_num: 1'' @ [CHR 0x0A] @ ''image_path: imgs/doc-page_1.jpg'' @ [CHR 0x0A] @
     ''parsed_text_markdown: # First'' \<and>
   str_of_int 12 = ''12''"
proof -
  have r: "get_text_nodes [\<lparr>path_str = ''imgs/doc-page_1.jpg'', is_file = True\<rparr>]
      [ [(''md'', PStr (''# First'' @ [newline]))] ] =
     Inr [\<lparr>text = [], metadata = [(''page_num'', PInt 1), (''image_path'', PStr ''imgs/doc-page_1.jpg''),
                                     (''parsed_text_markdown'', PStr (''# First'' @ [newline]))]\<rparr>]"
    by (simp add: eval_defs)
  have e: "strip (''page_num: '' @ str_of_int 1 @ [newline] @
        ''image_path: '' @ ''imgs/doc-page_1.jpg'' @ [newline] @
        ''parsed_text_markdown: '' @ (''# First'' @ [newline])) =
     ''page_num: 1'' @ [CHR 0x0A] @ ''image_path: imgs/doc-page_1.jpg'' @ [CHR 0x0A] @
     ''parsed_text_markdown: # First''"
    by (simp add: strip_def is_space_def str_of_int_def newline_def)
  from get_text_nodes_content_in_metadata [OF r] have
    "get_content_mode Mode_ALL
       \<lparr>text = [], metadata = [(''page_num'', PInt 1), (''image_path'', PStr ''imgs/doc-page_1.jpg''),
                              (''parsed_text_markdown'', PStr (''# First'' @ [newline]))]\<rparr> =
     strip (''page_num: '' @ str_of_int 1 @ [newline] @
        ''image_path: '' @ ''imgs/doc-page_1.jpg'' @ [newline] @
        ''parsed_text_markdown: '' @ (''# First'' @ [newline]))"
    by (simp add: eval_defs)
  moreover have "str_of_int 12 = ''12''" by (simp add: str_of_int_def)
  ultimately show ?thesis using r e by simp
qed

section \<open>Properties of the context annotation\<close>

lemma extends_refl: "extends h h"
  by (simp add: extends_def)

lemma take_prefix_length: "take (length xs) ys = xs \<Longrightarrow> length xs \<le> length ys"
proof -
  assume "take (length xs) ys = xs"
  then have "length (take (length xs) ys) = length xs" by simp
  then show ?thesis by simp
qed

lemma take_prefix_trans:
  assumes "take (length xs) ys = xs" "take (length ys) zs = ys"
  shows "take (length xs) zs = xs"
proof -
  have "length xs \<le> length ys" using assms(1) by (rule take_prefix_length)
  then have "take (length xs) (take (length ys) zs) = take (length xs) zs"
    by (simp add: min_def)
  with assms show ?thesis by simp
qed

lemma extends_trans: "extends h1 h2 \<Longrightarrow> extends h2 h3 \<Longrightarrow> extends h1 h3"
  unfolding extends_def by (blast intro: take_prefix_trans)

lemma take_prefix_nth: "take (length xs) ys = xs \<Longrightarrow> i < length xs \<Longrightarrow> ys ! i = xs ! i"
  by (metis nth_take)

lemma extends_node_at:
  assumes "extends h h'" "wf_store h" "a < length (node_objs h)"
  shows "node_at h' a = node_at h a"
proof -
  have n: "node_objs h' ! a = node_objs h ! a"
    using assms(1,3) by (simp add: extends_def take_prefix_nth)
  have "metadata_ref (node_objs h ! a) < length (dict_objs h)"
    using assms(2,3) by (simp add: wf_store_def)
  then have "dict_objs h' ! metadata_ref (node_objs h ! a) =
      dict_objs h ! metadata_ref (node_objs h ! a)"
    using assms(1) by (simp add: extends_def take_prefix_nth)
  with n show ?thesis by (simp add: node_at_def)
qed

lemma extends_length:
  "extends h h' \<Longrightarrow> length (node_objs h) \<le> length (node_objs h')"
  unfolding extends_def by (blast intro: take_prefix_length)

lemma deepcopy_node_at:
  assumes "wf_store h" "a < length (node_objs h)"
  shows "node_at (snd (deepcopy h a)) a = node_at h a"
proof -
  have "metadata_ref (node_objs h ! a) < length (dict_objs h)"
    using assms by (simp add: wf_store_def)
  then show ?thesis using assms(2)
    by (simp add: deepcopy_def node_at_def Let_def nth_append)
qed

text \<open>One iteration: what it adds to the store, and what it asks.\<close>

lemma annotate_node_step:
  fixes chat :: "'s \<Rightarrow> chat_request \<Rightarrow> 'r \<times> 's"
  assumes wf: "wf_store (cur_store st)" and a: "a < length (node_objs (cur_store st))"
    and req_def: "req = chunk_request doc (gc (node_at (cur_store st) a))"
    and st'_def: "st' = annotate_node chat rs gc doc st a"
  shows "node_objs (cur_store st') = node_objs (cur_store st) @
           [\<lparr>obj_text = obj_text (node_objs (cur_store st) ! a),
             metadata_ref = length (dict_objs (cur_store st))\<rparr>]"
    and "dict_objs (cur_store st') = dict_objs (cur_store st) @
           [dict_set (metadata (node_at (cur_store st) a)) ''context''
              (PStr (rs (fst (chat (llm_state st) req))))]"
    and "llm_state st' = snd (chat (llm_state st) req)"
    and "nodes_modified st' = nodes_modified st @ [length (node_objs (cur_store st))]"
    and "exchanges st' = exchanges st @ [(req, fst (chat (llm_state st) req))]"
proof -
  let ?h = "cur_store st"
  have c: "node_at (snd (deepcopy ?h a)) a = node_at ?h a"
    by (rule deepcopy_node_at [OF wf a])
  have d: "deepcopy ?h a = (length (node_objs ?h),
      ?h\<lparr>dict_objs := dict_objs ?h @ [dict_objs ?h ! metadata_ref (node_objs ?h ! a)],
         node_objs := node_objs ?h @
           [\<lparr>obj_text = obj_text (node_objs ?h ! a), metadata_ref = length (dict_objs ?h)\<rparr>]\<rparr>)"
    by (simp add: deepcopy_def Let_def)
  have c': "node_at (?h\<lparr>dict_objs := dict_objs ?h @ [dict_objs ?h ! metadata_ref (node_objs ?h ! a)],
         node_objs := node_objs ?h @
           [\<lparr>obj_text = obj_text (node_objs ?h ! a), metadata_ref = length (dict_objs ?h)\<rparr>]\<rparr>) a
        = node_at ?h a"
    using c d by simp
  obtain resp s1 where ch: "chat (llm_state st) req = (resp, s1)" by (cases "chat (llm_state st) req")
  show "node_objs (cur_store st') = node_objs ?h @
           [\<lparr>obj_text = obj_text (node_objs ?h ! a), metadata_ref = length (dict_objs ?h)\<rparr>]"
    unfolding st'_def annotate_node_def d using ch c'
    by (simp add: req_def metadata_set_def Let_def)
  show "dict_objs (cur_store st') = dict_objs ?h @
           [dict_set (metadata (node_at ?h a)) ''context'' (PStr (rs (fst (chat (llm_state st) req))))]"
    unfolding st'_def annotate_node_def d using ch c'
    by (simp add: req_def metadata_set_def Let_def node_at_def)
  show "llm_state st' = snd (chat (llm_state st) req)"
    unfolding st'_def annotate_node_def d using ch c'
    by (simp add: req_def metadata_set_def Let_def)
  show "nodes_modified st' = nodes_modified st @ [length (node_objs ?h)]"
    unfolding st'_def annotate_node_def d using ch c'
    by (simp add: req_def metadata_set_def Let_def)
  show "exchanges st' = exchanges st @ [(req, fst (chat (llm_state st) req))]"
    unfolding st'_def annotate_node_def d using ch c'
    by (simp add: req_def metadata_set_def Let_def)
qed

lemma annotate_node_extends:
  assumes wf: "wf_store (cur_store st)" and a: "a < length (node_objs (cur_store st))"
  shows "extends (cur_store st) (cur_store (annotate_node chat rs gc doc st a))"
    and "wf_store (cur_store (annotate_node chat rs gc doc st a))"
proof -
  note s = annotate_node_step(1,2) [OF wf a refl refl]
  show "extends (cur_store st) (cur_store (annotate_node chat rs gc doc st a))"
    unfolding extends_def s by simp
  show "wf_store (cur_store (annotate_node chat rs gc doc st a))"
    using wf unfolding wf_store_def s by (auto simp: less_Suc_eq)
qed

lemma annotate_loop_inv:
  fixes chat :: "'s \<Rightarrow> chat_request \<Rightarrow> 'r \<times> 's"
  assumes "wf_store (cur_store st)"
    and "\<forall>a\<in>set nodes. a < length (node_objs (cur_store st))"
  shows "\<exists>xs.
     extends (cur_store st) (cur_store (annotate_loop chat rs gc doc st nodes)) \<and>
     wf_store (cur_store (annotate_loop chat rs gc doc st nodes)) \<and>
     length (node_objs (cur_store (annotate_loop chat rs gc doc st nodes))) =
       length (node_objs (cur_store st)) + length nodes \<and>
     nodes_modified (annotate_loop chat rs gc doc st nodes) =
       nodes_modified st @
       [length (node_objs (cur_store st))..<length (node_objs (cur_store st)) + length nodes] \<and>
     exchanges (annotate_loop chat rs gc doc st nodes) = exchanges st @ xs \<and>
     length xs = length nodes \<and>
     (\<forall>i<length nodes.
        fst (xs ! i) = chunk_request doc (gc (node_at (cur_store st) (nodes ! i))) \<and>
        (\<exists>s. snd (xs ! i) =
           fst (chat s (chunk_request doc (gc (node_at (cur_store st) (nodes ! i)))))) \<and>
        node_at (cur_store (annotate_loop chat rs gc doc st nodes))
            (length (node_objs (cur_store st)) + i) =
          with_context (node_at (cur_store st) (nodes ! i)) (rs (snd (xs ! i))))"
  using assms
proof (induction nodes arbitrary: st)
  case Nil
  then show ?case by (simp add: extends_refl)
next
  case (Cons a rest)
  let ?h = "cur_store st"
  let ?N = "length (node_objs ?h)"
  define st1 where "st1 = annotate_node chat rs gc doc st a"
  define req where "req = chunk_request doc (gc (node_at ?h a))"
  define resp where "resp = fst (chat (llm_state st) req)"
  let ?h1 = "cur_store st1"
  define st' where "st' = annotate_loop chat rs gc doc st1 rest"
  let ?h' = "cur_store st'"
  have wf: "wf_store ?h" and a: "a < ?N" and rest: "\<forall>b\<in>set rest. b < ?N"
    using Cons.prems by auto
  note step = annotate_node_step [OF wf a req_def st1_def]
  have e1: "extends ?h ?h1" and wf1: "wf_store ?h1"
    unfolding st1_def by (rule annotate_node_extends [OF wf a])+
  have N1: "length (node_objs ?h1) = Suc ?N" using step(1) by simp
  have rest1: "\<forall>b\<in>set rest. b < length (node_objs ?h1)" using rest N1 by auto
  from Cons.IH [OF wf1 rest1] obtain xs where
    e': "extends ?h1 ?h'" and wf': "wf_store ?h'"
    and N': "length (node_objs ?h') = length (node_objs ?h1) + length rest"
    and nm: "nodes_modified st' = nodes_modified st1 @
        [length (node_objs ?h1)..<length (node_objs ?h1) + length rest]"
    and ex: "exchanges st' = exchanges st1 @ xs"
    and len: "length xs = length rest"
    and each: "\<forall>i<length rest.
        fst (xs ! i) = chunk_request doc (gc (node_at ?h1 (rest ! i))) \<and>
        (\<exists>s. snd (xs ! i) = fst (chat s (chunk_request doc (gc (node_at ?h1 (rest ! i)))))) \<and>
        node_at ?h' (length (node_objs ?h1) + i) =
          with_context (node_at ?h1 (rest ! i)) (rs (snd (xs ! i)))"
    unfolding st'_def by blast
  have loop: "annotate_loop chat rs gc doc st (a # rest) = st'"
    by (simp add: st'_def st1_def)
  have new: "node_at ?h1 ?N = with_context (node_at ?h a) (rs resp)"
    using step(1,2) by (simp add: node_at_def with_context_def resp_def)
  have first: "node_at ?h' ?N = with_context (node_at ?h a) (rs resp)"
    using extends_node_at [OF e' wf1, of ?N] N1 new by simp
  have old: "node_at ?h1 b = node_at ?h b" if "b < ?N" for b
    using extends_node_at [OF e1 wf that] .
  let ?xs = "(req, resp) # xs"
  have "\<forall>i<length (a # rest).
        fst (?xs ! i) = chunk_request doc (gc (node_at ?h ((a # rest) ! i))) \<and>
        (\<exists>s. snd (?xs ! i) =
           fst (chat s (chunk_request doc (gc (node_at ?h ((a # rest) ! i)))))) \<and>
        node_at ?h' (?N + i) =
          with_context (node_at ?h ((a # rest) ! i)) (rs (snd (?xs ! i)))"
  proof (intro allI impI)
    fix i assume i: "i < length (a # rest)"
    show "fst (?xs ! i) = chunk_request doc (gc (node_at ?h ((a # rest) ! i))) \<and>
        (\<exists>s. snd (?xs ! i) =
           fst (chat s (chunk_request doc (gc (node_at ?h ((a # rest) ! i)))))) \<and>
        node_at ?h' (?N + i) =
          with_context (node_at ?h ((a # rest) ! i)) (rs (snd (?xs ! i)))"
    proof (cases i)
      case 0
      have "\<exists>s. resp = fst (chat s req)" unfolding resp_def by blast
      then show ?thesis using 0 first by (simp add: req_def)
    next
      case (Suc j)
      then have j: "j < length rest" using i by simp
      then have "rest ! j < ?N" using rest by simp
      then have o: "node_at ?h1 (rest ! j) = node_at ?h (rest ! j)" by (rule old)
      from each j have
        "fst (xs ! j) = chunk_request doc (gc (node_at ?h1 (rest ! j)))"
        "\<exists>s. snd (xs ! j) = fst (chat s (chunk_request doc (gc (node_at ?h1 (rest ! j)))))"
        "node_at ?h' (length (node_objs ?h1) + j) =
          with_context (node_at ?h1 (rest ! j)) (rs (snd (xs ! j)))"
        by blast+
      then show ?thesis using Suc o N1 by simp
    qed
  qed
  moreover have "extends ?h ?h'" using e1 e' by (rule extends_trans)
  moreover have "length (node_objs ?h') = ?N + length (a # rest)" using N' N1 by simp
  moreover have "nodes_modified st' = nodes_modified st @ [?N..<?N + length (a # rest)]"
    using nm step(4) N1 by (simp add: upt_conv_Cons del: upt_Suc)
  moreover have "exchanges st' = exchanges st @ ?xs"
    using ex step(5) by (simp add: resp_def)
  moreover have "length ?xs = length (a # rest)" using len by simp
  ultimately show ?case unfolding loop using wf' by blast
qed

lemma dict_get_dict_set: "dict_get (dict_set d k v) k = Inr v"
  by (induction d k v rule: dict_set.induct) (auto simp: dict_get_def)

lemma dict_get_with_context:
  "dict_get (metadata (with_context n ctx)) ''context'' = Inr (PStr ctx)"
  by (simp add: with_context_def dict_get_dict_set)

lemma create_contextual_nodes_inv:
  fixes chat :: "'s \<Rightarrow> chat_request \<Rightarrow> 'r \<times> 's"
  assumes wf: "wf_store h" and valid: "\<forall>a\<in>set nodes. a < length (node_objs h)"
    and r: "r = create_contextual_nodes chat rs gc h s nodes"
    and doc: "doc = join [newline] (map (\<lambda>n. gc (node_at h n)) nodes)"
  shows "extends h (cur_store r)" and "wf_store (cur_store r)"
    and "nodes_modified r = [length (node_objs h)..<length (node_objs h) + length nodes]"
    and "length (exchanges r) = length nodes"
    and "\<forall>i<length nodes.
        fst (exchanges r ! i) = chunk_request doc (gc (node_at h (nodes ! i))) \<and>
        (\<exists>s. snd (exchanges r ! i) =
           fst (chat s (chunk_request doc (gc (node_at h (nodes ! i)))))) \<and>
        node_at (cur_store r) (length (node_objs h) + i) =
          with_context (node_at h (nodes ! i)) (rs (snd (exchanges r ! i)))"
proof -
  let ?st = "\<lparr>cur_store = h, llm_state = s, nodes_modified = [], exchanges = []\<rparr>
    :: ('s, 'r) annot_state"
  have r': "r = annotate_loop chat rs gc doc ?st nodes"
    by (simp add: r doc create_contextual_nodes_def)
  have wf': "wf_store (cur_store ?st)" using wf by simp
  have valid': "\<forall>a\<in>set nodes. a < length (node_objs (cur_store ?st))" using valid by simp
  from annotate_loop_inv [OF wf' valid', of chat rs gc doc] obtain xs where
    x: "extends (cur_store ?st) (cur_store r)" "wf_store (cur_store r)"
    "nodes_modified r = nodes_modified ?st @
       [length (node_objs (cur_store ?st))..<length (node_objs (cur_store ?st)) + length nodes]"
    "exchanges r = exchanges ?st @ xs" "length xs = length nodes"
    "\<forall>i<length nodes.
        fst (xs ! i) = chunk_request doc (gc (node_at (cur_store ?st) (nodes ! i))) \<and>
        (\<exists>s. snd (xs ! i) =
           fst (chat s (chunk_request doc (gc (node_at (cur_store ?st) (nodes ! i)))))) \<and>
        node_at (cur_store r) (length (node_objs (cur_store ?st)) + i) =
          with_context (node_at (cur_store ?st) (nodes ! i)) (rs (snd (xs ! i)))"
    unfolding r' by blast
  from x show "extends h (cur_store r)" and "wf_store (cur_store r)"
    and "nodes_modified r = [length (node_objs h)..<length (node_objs h) + length nodes]"
    and "length (exchanges r) = length nodes"
    and "\<forall>i<length nodes.
        fst (exchanges r ! i) = chunk_request doc (gc (node_at h (nodes ! i))) \<and>
        (\<exists>s. snd (exchanges r ! i) =
           fst (chat s (chunk_request doc (gc (node_at h (nodes ! i)))))) \<and>
        node_at (cur_store r) (length (node_objs h) + i) =
          with_context (node_at h (nodes ! i)) (rs (snd (exchanges r ! i)))"
    by auto
qed

lemma annotate_loop_log:
  fixes chat :: "'s \<Rightarrow> chat_request \<Rightarrow> 'r \<times> 's"
  assumes "wf_store (cur_store st)"
    and "\<forall>a\<in>set nodes. a < length (node_objs (cur_store st))"
  shows "exchanges (annotate_loop chat rs gc doc st nodes) =
       exchanges st @
       chat_log chat (llm_state st)
         (map (\<lambda>n. chunk_request doc (gc (node_at (cur_store st) n))) nodes) \<and>
     llm_state (annotate_loop chat rs gc doc st nodes) =
       chat_final chat (llm_state st)
         (map (\<lambda>n. chunk_request doc (gc (node_at (cur_store st) n))) nodes)"
  using assms
proof (induction nodes arbitrary: st)
  case Nil
  then show ?case by simp
next
  case (Cons a rest)
  let ?h = "cur_store st"
  define st1 where "st1 = annotate_node chat rs gc doc st a"
  define req where "req = chunk_request doc (gc (node_at ?h a))"
  have wf: "wf_store ?h" and a: "a < length (node_objs ?h)"
    and rest: "\<forall>b\<in>set rest. b < length (node_objs ?h)"
    using Cons.prems by auto
  note step = annotate_node_step [OF wf a req_def st1_def]
  have e1: "extends ?h (cur_store st1)" and wf1: "wf_store (cur_store st1)"
    unfolding st1_def by (rule annotate_node_extends [OF wf a])+
  have rest1: "\<forall>b\<in>set rest. b < length (node_objs (cur_store st1))"
    using rest extends_length [OF e1] by auto
  have same: "map (\<lambda>n. chunk_request doc (gc (node_at (cur_store st1) n))) rest =
      map (\<lambda>n. chunk_request doc (gc (node_at ?h n))) rest"
  proof (rule map_cong [OF refl])
    fix n assume "n \<in> set rest"
    then have "n < length (node_objs ?h)" using rest by simp
    then show "chunk_request doc (gc (node_at (cur_store st1) n)) =
        chunk_request doc (gc (node_at ?h n))"
      using extends_node_at [OF e1 wf] by simp
  qed
  from Cons.IH [OF wf1 rest1] same step(3,5) show ?case
    by (simp add: st1_def [symmetric] req_def [symmetric])
qed

text \<open>
  Claim C2, as the code has it. \<open>create_contextual_nodes\<close> asks the service once per input
  chunk, in chunk order, each request in the state the one before left; output node \<open>i\<close>
  is chunk \<open>i\<close> with \<open>str\<close> of the \<open>i\<close>-th response stored under \<open>context\<close>, which is the role
  of the response message, a colon, a space and the response text, and nothing else of the
  node is changed.
\<close>

theorem create_contextual_nodes_one_request_each:
  fixes chat :: "'s \<Rightarrow> chat_request \<Rightarrow> chat_response \<times> 's"
  assumes wf: "wf_store h" and valid: "\<forall>a\<in>set nodes. a < length (node_objs h)"
    and r: "r = create_contextual_nodes chat chat_response_str get_content h s nodes"
    and reqs: "reqs = map (\<lambda>n. chunk_request
        (join [newline] (map (\<lambda>n. get_content (node_at h n)) nodes))
        (get_content (node_at h n))) nodes"
  shows "exchanges r = chat_log chat s reqs \<and>
     llm_state r = chat_final chat s reqs \<and>
     length (exchanges r) = length nodes \<and>
     length (nodes_modified r) = length nodes \<and>
     (\<forall>i<length nodes.
        node_at (cur_store r) (nodes_modified r ! i) =
          \<lparr>text = text (node_at h (nodes ! i)),
           metadata = dict_set (metadata (node_at h (nodes ! i))) ''context''
             (PStr (response_role (snd (exchanges r ! i)) @ '': '' @
                    response_text (snd (exchanges r ! i))))\<rparr> \<and>
        dict_get (metadata (node_at (cur_store r) (nodes_modified r ! i))) ''context'' =
          Inr (PStr (response_role (snd (exchanges r ! i)) @ '': '' @
                     response_text (snd (exchanges r ! i)))))"
proof -
  let ?doc = "join [newline] (map (\<lambda>n. get_content (node_at h n)) nodes)"
  let ?st = "\<lparr>cur_store = h, llm_state = s, nodes_modified = [], exchanges = []\<rparr>
    :: ('s, chat_response) annot_state"
  note inv = create_contextual_nodes_inv [OF wf valid r refl]
  have r': "r = annotate_loop chat chat_response_str get_content ?doc ?st nodes"
    by (simp add: r create_contextual_nodes_def)
  have wf': "wf_store (cur_store ?st)" using wf by simp
  have valid': "\<forall>a\<in>set nodes. a < length (node_objs (cur_store ?st))" using valid by simp
  have log: "exchanges r = chat_log chat s reqs" "llm_state r = chat_final chat s reqs"
    using annotate_loop_log [OF wf' valid', of chat chat_response_str get_content ?doc]
    unfolding r' reqs by simp_all
  have each: "node_at (cur_store r) (nodes_modified r ! i) =
          \<lparr>text = text (node_at h (nodes ! i)),
           metadata = dict_set (metadata (node_at h (nodes ! i))) ''context''
             (PStr (response_role (snd (exchanges r ! i)) @ '': '' @
                    response_text (snd (exchanges r ! i))))\<rparr> \<and>
        dict_get (metadata (node_at (cur_store r) (nodes_modified r ! i))) ''context'' =
          Inr (PStr (response_role (snd (exchanges r ! i)) @ '': '' @
                     response_text (snd (exchanges r ! i))))"
    if i: "i < length nodes" for i
  proof -
    have m: "nodes_modified r ! i = length (node_objs h) + i" using inv(3) i by simp
    have "node_at (cur_store r) (length (node_objs h) + i) =
        with_context (node_at h (nodes ! i)) (chat_response_str (snd (exchanges r ! i)))"
      using inv(5) i by blast
    then show ?thesis unfolding m
      by (simp add: with_context_def chat_response_str_def dict_get_dict_set)
  qed
  have "length (nodes_modified r) = length nodes" using inv(3) by simp
  with log inv(4) each show ?thesis by blast
qed



text \<open>
  Claim C3. After \<open>create_contextual_nodes\<close> every object that was in the store is unchanged,
  so each input node has the text and the metadata it had before the call; the returned
  nodes are new objects, none of them an input node, and they carry the \<open>context\<close> key.
\<close>

theorem create_contextual_nodes_preserves_input:
  fixes chat :: "'s \<Rightarrow> chat_request \<Rightarrow> 'r \<times> 's"
  assumes wf: "wf_store h" and valid: "\<forall>a\<in>set nodes. a < length (node_objs h)"
  shows "extends h (cur_store (create_contextual_nodes chat response_str get_content h s nodes)) \<and>
     (\<forall>a\<in>set nodes.
        node_at (cur_store (create_contextual_nodes chat response_str get_content h s nodes)) a =
          node_at h a) \<and>
     (\<forall>b\<in>set (nodes_modified (create_contextual_nodes chat response_str get_content h s nodes)).
        length (node_objs h) \<le> b \<and> b \<notin> set nodes) \<and>
     (\<forall>i<length nodes.
        map_of (metadata (node_at
            (cur_store (create_contextual_nodes chat response_str get_content h s nodes))
            (nodes_modified (create_contextual_nodes chat response_str get_content h s nodes) ! i)))
          ''context'' \<noteq> None)"
proof -
  define r where "r = create_contextual_nodes chat response_str get_content h s nodes"
  note inv = create_contextual_nodes_inv [OF wf valid r_def refl]
  have same: "\<forall>a\<in>set nodes. node_at (cur_store r) a = node_at h a"
    using extends_node_at [OF inv(1) wf] valid by blast
  have fresh: "\<forall>b\<in>set (nodes_modified r). length (node_objs h) \<le> b \<and> b \<notin> set nodes"
    using inv(3) valid by auto
  have ctx: "\<forall>i<length nodes.
      map_of (metadata (node_at (cur_store r) (nodes_modified r ! i))) ''context'' \<noteq> None"
  proof (intro allI impI)
    fix i assume i: "i < length nodes"
    then have m: "nodes_modified r ! i = length (node_objs h) + i" using inv(3) by simp
    have "dict_get (metadata (node_at (cur_store r) (length (node_objs h) + i))) ''context'' =
        Inr (PStr (response_str (snd (exchanges r ! i))))"
      using inv(5) i by (simp add: dict_get_with_context)
    then show "map_of (metadata (node_at (cur_store r) (nodes_modified r ! i))) ''context'' \<noteq> None"
      unfolding m by (auto simp: dict_get_def split: option.splits)
  qed
  show ?thesis unfolding r_def [symmetric] by (intro conjI inv(1) same fresh ctx)
qed

text \<open>
  Claim C7. With a generation service whose response depends on the request only, a second
  run of \<open>create_contextual_nodes\<close> on the same chunk list, in the store the first run left,
  gives every chunk the context summary the first run gave it.
\<close>

theorem create_contextual_nodes_deterministic:
  fixes chat :: "'s \<Rightarrow> chat_request \<Rightarrow> 'r \<times> 's"
  assumes det: "\<forall>s s' req. fst (chat s req) = fst (chat s' req)"
    and wf: "wf_store h" and valid: "\<forall>a\<in>set nodes. a < length (node_objs h)"
    and r1: "r1 = create_contextual_nodes chat response_str get_content h s1 nodes"
    and r2: "r2 = create_contextual_nodes chat response_str get_content (cur_store r1) s2 nodes"
  shows "\<forall>i<length nodes.
     dict_get (metadata (node_at (cur_store r2) (nodes_modified r2 ! i))) ''context'' =
     dict_get (metadata (node_at (cur_store r1) (nodes_modified r1 ! i))) ''context''"
proof (intro allI impI)
  fix i assume i: "i < length nodes"
  let ?doc = "join [newline] (map (\<lambda>n. get_content (node_at h n)) nodes)"
  note inv1 = create_contextual_nodes_inv [OF wf valid r1 refl]
  have same: "node_at (cur_store r1) a = node_at h a" if "a \<in> set nodes" for a
    using extends_node_at [OF inv1(1) wf] valid that by blast
  have valid1: "\<forall>a\<in>set nodes. a < length (node_objs (cur_store r1))"
    using valid extends_length [OF inv1(1)] by auto
  have doc: "join [newline] (map (\<lambda>n. get_content (node_at (cur_store r1) n)) nodes) = ?doc"
    using same by (simp cong: map_cong)
  note inv2 = create_contextual_nodes_inv [OF inv1(2) valid1 r2 refl]
  have m1: "nodes_modified r1 ! i = length (node_objs h) + i" using inv1(3) i by simp
  have m2: "nodes_modified r2 ! i = length (node_objs (cur_store r1)) + i"
    using inv2(3) i by simp
  have ni: "node_at (cur_store r1) (nodes ! i) = node_at h (nodes ! i)"
    using same i by simp
  from inv1(5) [rule_format, OF i] obtain sa where
    a: "snd (exchanges r1 ! i) = fst (chat sa (chunk_request ?doc (get_content (node_at h (nodes ! i)))))"
    and c1: "node_at (cur_store r1) (length (node_objs h) + i) =
      with_context (node_at h (nodes ! i)) (response_str (snd (exchanges r1 ! i)))"
    by blast
  from inv2(5) [rule_format, OF i] obtain sb where
    b: "snd (exchanges r2 ! i) = fst (chat sb (chunk_request ?doc (get_content (node_at h (nodes ! i)))))"
    and c2: "node_at (cur_store r2) (length (node_objs (cur_store r1)) + i) =
      with_context (node_at h (nodes ! i)) (response_str (snd (exchanges r2 ! i)))"
    unfolding doc ni by blast
  have "snd (exchanges r2 ! i) = snd (exchanges r1 ! i)"
    unfolding a b using det by blast
  then show "dict_get (metadata (node_at (cur_store r2) (nodes_modified r2 ! i))) ''context'' =
     dict_get (metadata (node_at (cur_store r1) (nodes_modified r1 ! i))) ''context''"
    unfolding m1 m2 c1 c2 by (simp add: dict_get_with_context)
qed

lemmas annot_defs = Let_def wf_store_def create_contextual_nodes_def annotate_node_def deepcopy_def
  metadata_set_def node_at_def dict_get_def with_context_def chunk_request_def

lemmas annot_eval = annot_defs chat_response_str_def


text \<open>
  Two chunks, and a service that answers \<open>first\<close> in its initial state and \<open>second\<close> later.
\<close>

theorem create_contextual_nodes_one_request_each_witness:
  "wf_store \<lparr>node_objs = [\<lparr>obj_text = [], metadata_ref = 0\<rparr>, \<lparr>obj_text = [], metadata_ref = 1\<rparr>],
             dict_objs = [ [(''page_num'', PInt 1)], [(''page_num'', PInt 2)] ]\<rparr> \<and>
   map snd (exchanges (create_contextual_nodes
       (\<lambda>(s::nat) req. (\<lparr>response_role = ''assistant'',
                           response_text = (if s = 0 then ''first'' else ''second'')\<rparr>, Suc s))
       chat_response_str (\<lambda>n. ''page'')
       \<lparr>node_objs = [\<lparr>obj_text = [], metadata_ref = 0\<rparr>, \<lparr>obj_text = [], metadata_ref = 1\<rparr>],
        dict_objs = [ [(''page_num'', PInt 1)], [(''page_num'', PInt 2)] ]\<rparr>
       0 [0, 1])) =
     [\<lparr>response_role = ''assistant'', response_text = ''first''\<rparr>,
      \<lparr>response_role = ''assistant'', response_text = ''second''\<rparr>] \<and>
   llm_state (create_contextual_nodes
       (\<lambda>(s::nat) req. (\<lparr>response_role = ''assistant'',
                           response_text = (if s = 0 then ''first'' else ''second'')\<rparr>, Suc s))
       chat_response_str (\<lambda>n. ''page'')
       \<lparr>node_objs = [\<lparr>obj_text = [], metadata_ref = 0\<rparr>, \<lparr>obj_text = [], metadata_ref = 1\<rparr>],
        dict_objs = [ [(''page_num'', PInt 1)], [(''page_num'', PInt 2)] ]\<rparr>
       0 [0, 1]) = 2 \<and>
   map (\<lambda>a. metadata (node_at (cur_store (create_contextual_nodes
       (\<lambda>(s::nat) req. (\<lparr>response_role = ''assistant'',
                           response_text = (if s = 0 then ''first'' else ''second'')\<rparr>, Suc s))
       chat_response_str (\<lambda>n. ''page'')
       \<lparr>node_objs = [\<lparr>obj_text = [], metadata_ref = 0\<rparr>, \<lparr>obj_text = [], metadata_ref = 1\<rparr>],
        dict_objs = [ [(''page_num'', PInt 1)], [(''page_num'', PInt 2)] ]\<rparr>
       0 [0, 1])) a)) [2, 3] =
     [ [(''page_num'', PInt 1), (''context'', PStr ''assistant: first'')],
       [(''page_num'', PInt 2), (''context'', PStr ''assistant: second'')] ]"
  using create_contextual_nodes_one_request_each
    [OF _ _ refl refl,
      where h = "\<lparr>node_objs = [\<lparr>obj_text = [], metadata_ref = 0\<rparr>, \<lparr>obj_text = [], metadata_ref = 1\<rparr>],
          dict_objs = [ [(''page_num'', PInt 1)], [(''page_num'', PInt 2)] ]\<rparr>"
        and nodes = "[0, 1]"
        and chat = "\<lambda>(s::nat) req. (\<lparr>response_role = ''assistant'',
                           response_text = (if s = 0 then ''first'' else ''second'')\<rparr>, Suc s)"
        and get_content = "\<lambda>n. ''page''" and s = 0]
  by (simp add: annot_eval)

text \<open>
  Claim C2 as stated, with the raw response text stored verbatim, fails: for the response
  text \<open>the real answer\<close> of the assistant the stored context is
  \<open>assistant: the real answer\<close>.
\<close>

theorem create_contextual_nodes_role_prefix_counterexample:
  "response_text (snd (exchanges (create_contextual_nodes
       (\<lambda>(s::nat) req. (\<lparr>response_role = ''assistant'', response_text = ''the real answer''\<rparr>, s))
       chat_response_str (\<lambda>n. ''page'')
       \<lparr>node_objs = [\<lparr>obj_text = [], metadata_ref = 0\<rparr>], dict_objs = [ [(''page_num'', PInt 1)] ]\<rparr>
       0 [0]) ! 0)) = ''the real answer'' \<and>
   dict_get (metadata (node_at (cur_store (create_contextual_nodes
       (\<lambda>(s::nat) req. (\<lparr>response_role = ''assistant'', response_text = ''the real answer''\<rparr>, s))
       chat_response_str (\<lambda>n. ''page'')
       \<lparr>node_objs = [\<lparr>obj_text = [], metadata_ref = 0\<rparr>], dict_objs = [ [(''page_num'', PInt 1)] ]\<rparr>
       0 [0])) 1)) ''context'' = Inr (PStr ''assistant: the real answer'')"
  by (simp add: annot_eval)

text \<open>One chunk: the input node keeps its metadata, the copy is the new node 1.\<close>

theorem create_contextual_nodes_preserves_input_witness:
  "wf_store \<lparr>node_objs = [\<lparr>obj_text = [], metadata_ref = 0\<rparr>],
             dict_objs = [ [(''page_num'', PInt 1)] ]\<rparr> \<and>
   node_at (cur_store (create_contextual_nodes (\<lambda>(s::nat) req. (''summary'', Suc s)) (\<lambda>r. r)
       (\<lambda>n. ''page one'')
       \<lparr>node_objs = [\<lparr>obj_text = [], metadata_ref = 0\<rparr>], dict_objs = [ [(''page_num'', PInt 1)] ]\<rparr>
       0 [0])) 0 = \<lparr>text = [], metadata = [(''page_num'', PInt 1)]\<rparr> \<and>
   nodes_modified (create_contextual_nodes (\<lambda>(s::nat) req. (''summary'', Suc s)) (\<lambda>r. r)
       (\<lambda>n. ''page one'')
       \<lparr>node_objs = [\<lparr>obj_text = [], metadata_ref = 0\<rparr>], dict_objs = [ [(''page_num'', PInt 1)] ]\<rparr>
       0 [0]) = [1]"
  using create_contextual_nodes_preserves_input
    [of "\<lparr>node_objs = [\<lparr>obj_text = [], metadata_ref = 0\<rparr>], dict_objs = [ [(''page_num'', PInt 1)] ]\<rparr>"
        "[0]" "\<lambda>(s::nat) req. (''summary'', Suc s)" "\<lambda>r. r" "\<lambda>n. ''page one''" 0]
  by (simp add: annot_defs)

text \<open>Two runs on one chunk.\<close>

theorem create_contextual_nodes_deterministic_witness:
  "wf_store \<lparr>node_objs = [\<lparr>obj_text = [], metadata_ref = 0\<rparr>],
             dict_objs = [ [(''page_num'', PInt 1)] ]\<rparr> \<and>
   dict_get (metadata (node_at (cur_store
     (create_contextual_nodes (\<lambda>(s::nat) req. (''summary'', Suc s)) (\<lambda>r. r) (\<lambda>n. ''page one'')
        (cur_store (create_contextual_nodes (\<lambda>(s::nat) req. (''summary'', Suc s)) (\<lambda>r. r)
           (\<lambda>n. ''page one'')
           \<lparr>node_objs = [\<lparr>obj_text = [], metadata_ref = 0\<rparr>], dict_objs = [ [(''page_num'', PInt 1)] ]\<rparr>
           0 [0]))
        1 [0])) 2)) ''context'' = Inr (PStr ''summary'') \<and>
   dict_get (metadata (node_at (cur_store
     (create_contextual_nodes (\<lambda>(s::nat) req. (''summary'', Suc s)) (\<lambda>r. r) (\<lambda>n. ''page one'')
        \<lparr>node_objs = [\<lparr>obj_text = [], metadata_ref = 0\<rparr>], dict_objs = [ [(''page_num'', PInt 1)] ]\<rparr>
        0 [0])) 1)) ''context'' = Inr (PStr ''summary'')"
  using create_contextual_nodes_deterministic
    [OF _ _ _ refl refl,
      of "\<lambda>(s::nat) req. (''summary'', Suc s)"
        "\<lparr>node_objs = [\<lparr>obj_text = [], metadata_ref = 0\<rparr>], dict_objs = [ [(''page_num'', PInt 1)] ]\<rparr>"
        "[0]" "\<lambda>r. r" "\<lambda>n. ''page one''" 1 0]
  by (simp add: annot_defs)

section \<open>Properties of the query engine\<close>

lemma image_nodes_of_ok:
  assumes "\<forall>n\<in>set ns. \<exists>p. map_of (metadata (node n)) ''image_path'' = Some (PStr p)"
  shows "\<exists>imgs. image_nodes_of ns = Inr imgs \<and> length imgs = length ns \<and>
     (\<forall>i<length ns. \<exists>p. imgs ! i = \<lparr>node = \<lparr>image_path = Some p\<rparr>, score = None\<rparr> \<and>
        map_of (metadata (node (ns ! i))) ''image_path'' = Some (PStr p))"
  using assms
proof (induction ns)
  case Nil
  then show ?case by simp
next
  case (Cons n ns)
  then obtain imgs where imgs: "image_nodes_of ns = Inr imgs" "length imgs = length ns"
    "\<forall>i<length ns. \<exists>p. imgs ! i = \<lparr>node = \<lparr>image_path = Some p\<rparr>, score = None\<rparr> \<and>
        map_of (metadata (node (ns ! i))) ''image_path'' = Some (PStr p)"
    by auto
  from Cons.prems obtain p where p: "map_of (metadata (node n)) ''image_path'' = Some (PStr p)"
    by auto
  let ?imgs = "\<lparr>node = \<lparr>image_path = Some p\<rparr>, score = None\<rparr> # imgs"
  have "image_nodes_of (n # ns) = Inr ?imgs" using imgs(1) p by (simp add: dict_get_def)
  moreover have "length ?imgs = length (n # ns)" using imgs(2) by simp
  moreover have "\<forall>i<length (n # ns). \<exists>q. ?imgs ! i = \<lparr>node = \<lparr>image_path = Some q\<rparr>, score = None\<rparr> \<and>
        map_of (metadata (node ((n # ns) ! i))) ''image_path'' = Some (PStr q)"
  proof (intro allI impI)
    fix i assume "i < length (n # ns)"
    then show "\<exists>q. ?imgs ! i = \<lparr>node = \<lparr>image_path = Some q\<rparr>, score = None\<rparr> \<and>
        map_of (metadata (node ((n # ns) ! i))) ''image_path'' = Some (PStr q)"
      using imgs(3) p by (cases i) auto
  qed
  ultimately show ?case by blast
qed

text \<open>
  Claim C8. When every retrieved chunk has a string under \<open>image_path\<close> in its metadata, as
  every chunk that \<open>get_text_nodes\<close> builds has, \<open>custom_query\<close> returns a response whose
  source nodes are the retrieved chunks and whose metadata holds those chunks and one image
  node per chunk, in retrieval order, the \<open>i\<close>-th with the image path of the \<open>i\<close>-th chunk;
  the answer is the reply of the multimodal service to the prompt and these image nodes.
\<close>

theorem custom_query_image_nodes:
  assumes "\<forall>n\<in>set (retriever self query_str).
     \<exists>p. map_of (metadata (node n)) ''image_path'' = Some (PStr p)"
  shows "\<exists>imgs.
     custom_query self get_content str_of query_str =
       Inr \<lparr>response =
              str_of (multi_modal_llm self
                (qa_prompt self
                   (join [newline, newline]
                      (map (\<lambda>r. get_content (node r)) (retriever self query_str)))
                   query_str)
                (map node imgs)),
            source_nodes = retriever self query_str,
            response_metadata =
              \<lparr>meta_text_nodes = retriever self query_str, meta_image_nodes = imgs\<rparr>\<rparr> \<and>
     length imgs = length (retriever self query_str) \<and>
     (\<forall>i<length (retriever self query_str).
        \<exists>p. imgs ! i = \<lparr>node = \<lparr>image_path = Some p\<rparr>, score = None\<rparr> \<and>
            map_of (metadata (node (retriever self query_str ! i))) ''image_path'' =
              Some (PStr p))"
proof -
  from image_nodes_of_ok [OF assms] obtain imgs where
    imgs: "image_nodes_of (retriever self query_str) = Inr imgs"
    "length imgs = length (retriever self query_str)"
    "\<forall>i<length (retriever self query_str).
       \<exists>p. imgs ! i = \<lparr>node = \<lparr>image_path = Some p\<rparr>, score = None\<rparr> \<and>
         map_of (metadata (node (retriever self query_str ! i))) ''image_path'' = Some (PStr p)"
    by blast
  have "custom_query self get_content str_of query_str =
       Inr \<lparr>response =
              str_of (multi_modal_llm self
                (qa_prompt self
                   (join [newline, newline]
                      (map (\<lambda>r. get_content (node r)) (retriever self query_str)))
                   query_str)
                (map node imgs)),
            source_nodes = retriever self query_str,
            response_metadata =
              \<lparr>meta_text_nodes = retriever self query_str, meta_image_nodes = imgs\<rparr>\<rparr>"
    using imgs(1) by (simp add: custom_query_def Let_def)
  with imgs(2,3) show ?thesis by blast
qed

text \<open>Two retrieved chunks, pages 2 and 1 in this order.\<close>

theorem custom_query_image_nodes_witness:
  "custom_query
     \<lparr>qa_prompt = (\<lambda>c q. c @ '' / '' @ q),
      retriever = (\<lambda>q. [\<lparr>node = \<lparr>text = [], metadata = [(''page_num'', PInt 2),
                            (''image_path'', PStr ''imgs/doc-page_2.jpg'')]\<rparr>,
                          score = Some (1::nat)\<rparr>,
                        \<lparr>node = \<lparr>text = [], metadata = [(''page_num'', PInt 1),
                            (''image_path'', PStr ''imgs/doc-page_1.jpg'')]\<rparr>,
                          score = Some 0\<rparr>]),
      multi_modal_llm = (\<lambda>p imgs. (p, imgs))\<rparr>
     (\<lambda>n. case dict_get (metadata n) ''page_num'' of Inr (PInt k) \<Rightarrow> (if k = 1 then ''one'' else ''two'') | _ \<Rightarrow> [])
     (\<lambda>(p, imgs). p @ '' with '' @ concat (map (\<lambda>im. case image_path im of Some q \<Rightarrow> q | None \<Rightarrow> []) imgs))
     ''which page?'' =
   Inr \<lparr>response = ''two'' @ [CHR 0x0A, CHR 0x0A] @
                     ''one / which page? with imgs/doc-page_2.jpgimgs/doc-page_1.jpg'',
        source_nodes = [\<lparr>node = \<lparr>text = [], metadata = [(''page_num'', PInt 2),
                            (''image_path'', PStr ''imgs/doc-page_2.jpg'')]\<rparr>,
                          score = Some (1::nat)\<rparr>,
                        \<lparr>node = \<lparr>text = [], metadata = [(''page_num'', PInt 1),
                            (''image_path'', PStr ''imgs/doc-page_1.jpg'')]\<rparr>,
                          score = Some 0\<rparr>],
        response_metadata =
          \<lparr>meta_text_nodes = [\<lparr>node = \<lparr>text = [], metadata = [(''page_num'', PInt 2),
                            (''image_path'', PStr ''imgs/doc-page_2.jpg'')]\<rparr>,
                          score = Some (1::nat)\<rparr>,
                        \<lparr>node = \<lparr>text = [], metadata = [(''page_num'', PInt 1),
                            (''image_path'', PStr ''imgs/doc-page_1.jpg'')]\<rparr>,
                          score = Some 0\<rparr>],
           meta_image_nodes =
             [\<lparr>node = \<lparr>image_path = Some ''imgs/doc-page_2.jpg''\<rparr>, score = None\<rparr>,
              \<lparr>node = \<lparr>image_path = Some ''imgs/doc-page_1.jpg''\<rparr>, score = None\<rparr>]\<rparr>\<rparr>"
  using custom_query_image_nodes
    [where self = "\<lparr>qa_prompt = (\<lambda>c q. c @ '' / '' @ q),
      retriever = (\<lambda>q. [\<lparr>node = \<lparr>text = [], metadata = [(''page_num'', PInt 2),
                            (''image_path'', PStr ''imgs/doc-page_2.jpg'')]\<rparr>,
                          score = Some (1::nat)\<rparr>,
                        \<lparr>node = \<lparr>text = [], metadata = [(''page_num'', PInt 1),
                            (''image_path'', PStr ''imgs/doc-page_1.jpg'')]\<rparr>,
                          score = Some 0\<rparr>]),
      multi_modal_llm = (\<lambda>p imgs. (p, imgs))\<rparr>"
     and query_str = "''which page?''"
     and get_content = "\<lambda>n. case dict_get (metadata n) ''page_num'' of Inr (PInt k) \<Rightarrow> (if k = 1 then ''one'' else ''two'') | _ \<Rightarrow> []"
     and str_of = "\<lambda>(p, imgs). p @ '' with '' @ concat (map (\<lambda>im. case image_path im of Some q \<Rightarrow> q | None \<Rightarrow> []) imgs)"]
  by (simp add: custom_query_def dict_get_def Let_def newline_def)

text \<open>
  An \<open>image_path\<close> that is not a string ends in \<open>ValidationError\<close>, a missing one in
  \<open>KeyError\<close>.
\<close>

lemma custom_query_non_string_path:
  "custom_query
     \<lparr>qa_prompt = (\<lambda>c q. c @ q),
      retriever = (\<lambda>q. [\<lparr>node = \<lparr>text = [], metadata = [(''image_path'', PInt 5)]\<rparr>,
                          score = Some (1::nat)\<rparr>]),
      multi_modal_llm = (\<lambda>p imgs. ''answer'')\<rparr>
     (\<lambda>n. []) (\<lambda>r. r) ''q'' = Inl ValidationError \<and>
   custom_query
     \<lparr>qa_prompt = (\<lambda>c q. c @ q),
      retriever = (\<lambda>q. [\<lparr>node = \<lparr>text = [], metadata = [(''page_num'', PInt 5)]\<rparr>,
                          score = Some (1::nat)\<rparr>]),
      multi_modal_llm = (\<lambda>p imgs. ''answer'')\<rparr>
     (\<lambda>n. []) (\<lambda>r. r) ''q'' = Inl KeyError"
  by (simp add: custom_query_def dict_get_def)

end
